theory Spec2Isabelle
  imports Main "HOL-Library.Word" "HOL-Library.List_Lexorder" "HOL-Library.Char_ord"
begin

section \<open>Data model of the DynamoDB-backed VFS (sqlite_ddbvfs.py)\<close>

text \<open>
  Python integers are modelled as \<open>int\<close>, byte strings as lists of 8-bit words and
  exceptions as values of the type \<open>error\<close>.
\<close>

type_synonym byte = "8 word"
type_synonym bytes = "byte list"

datatype error =
    BusyError
  | ConditionalCheckFailedException
  | ValidationException
  | KeyError
  | ValueError
  | ZeroDivisionError
  | AssertionError

subsection \<open>Python builtins used by the source\<close>

text \<open>Index normalisation of a Python slice bound for a sequence of length \<open>n\<close>.\<close>

definition py_index :: "nat \<Rightarrow> int \<Rightarrow> nat" where
  "py_index n i = (if i < 0 then nat (int n + i) else min (nat i) n)"

text \<open>\<open>xs[i:j]\<close> and \<open>xs[i:]\<close>.\<close>

definition py_slice :: "'a list \<Rightarrow> int \<Rightarrow> int \<Rightarrow> 'a list" where
  "py_slice xs i j =
     take (py_index (length xs) j - py_index (length xs) i) (drop (py_index (length xs) i) xs)"

definition py_slice_from :: "'a list \<Rightarrow> int \<Rightarrow> 'a list" where
  "py_slice_from xs i = drop (py_index (length xs) i) xs"

text \<open>\<open>bytes(n)\<close>: \<open>n\<close> zero bytes, \<open>ValueError\<close> for a negative count.\<close>

definition zero_bytes :: "int \<Rightarrow> error + bytes" where
  "zero_bytes n = (if n < 0 then Inl ValueError else Inr (replicate (nat n) 0))"

text \<open>\<open>range(a, b, -1)\<close>: from \<open>a\<close> down to \<open>b + 1\<close>.\<close>

definition py_range_down :: "int \<Rightarrow> int \<Rightarrow> int list" where
  "py_range_down a b = rev [b + 1..a]"

text \<open>The format \<open>f'{block:010d}'\<close>: decimal digits, zero-filled to a width of at least ten,
  the sign counted in the width.\<close>

definition digit_char :: "nat \<Rightarrow> char" where
  "digit_char d = ''0123456789'' ! d"

fun digits :: "nat \<Rightarrow> string" where
  "digits n = (if n < 10 then [digit_char n] else digits (n div 10) @ [digit_char (n mod 10)])"

declare digits.simps [simp del]

definition zfill :: "nat \<Rightarrow> string \<Rightarrow> string" where
  "zfill w s = replicate (w - length s) (CHR ''0'') @ s"

definition fmt010 :: "int \<Rightarrow> string" where
  "fmt010 n = (if n < 0 then CHR ''-'' # zfill 9 (digits (nat (- n)))
               else zfill 10 (digits (nat n)))"

text \<open>
  \<open>int(s)\<close> for a string of code points below 256: white space around the number is
  dropped, a sign \<open>+\<close> or \<open>-\<close> may come first, and what follows must be decimal digits,
  between any two of which a single underscore may stand; anything else is a
  \<open>ValueError\<close>. (A sort key has at most 1024 bytes, fewer than the number of digits at
  which newer interpreters refuse a decimal string.)
\<close>

definition digit_val :: "char \<Rightarrow> nat option" where
  "digit_val c = (if CHR ''0'' \<le> c \<and> c \<le> CHR ''9'' then Some (of_char c - 48) else None)"

fun parse_digits :: "nat \<Rightarrow> string \<Rightarrow> nat option" where
  "parse_digits acc [] = Some acc"
| "parse_digits acc (c # cs) =
     (case digit_val c of None \<Rightarrow> None | Some d \<Rightarrow> parse_digits (10 * acc + d) cs)"

text \<open>The white space of \<open>int\<close>: tab to carriage return, the four separators, the space,
  next line and the no-break space.\<close>

definition py_space :: "char \<Rightarrow> bool" where
  "py_space c \<longleftrightarrow>
     c \<in> set [CHR 0x09, CHR 0x0A, CHR 0x0B, CHR 0x0C, CHR 0x0D, CHR 0x1C, CHR 0x1D,
               CHR 0x1E, CHR 0x1F, CHR 0x20, CHR 0x85, CHR 0xA0]"

definition strip :: "string \<Rightarrow> string" where
  "strip s = rev (dropWhile py_space (rev (dropWhile py_space s)))"

text \<open>No underscore at either end and no two in a row; \<open>prev\<close> is the character before.\<close>

fun underscores_ok :: "char \<Rightarrow> string \<Rightarrow> bool" where
  "underscores_ok prev [] = (prev \<noteq> CHR ''_'')"
| "underscores_ok prev (c # cs) =
     ((c = CHR ''_'' \<longrightarrow> prev \<noteq> CHR ''_'') \<and> underscores_ok c cs)"

definition py_int :: "string \<Rightarrow> error + int" where
  "py_int s =
     (let s = strip s;
          negative = (s \<noteq> [] \<and> hd s = CHR ''-'');
          body = (if s \<noteq> [] \<and> (hd s = CHR ''-'' \<or> hd s = CHR ''+'') then tl s else s)
      in if body = [] \<or> \<not> underscores_ok (CHR ''_'') body then Inl ValueError
         else (case parse_digits 0 (filter (\<lambda>c. c \<noteq> CHR ''_'') body) of
                 None \<Rightarrow> Inl ValueError
               | Some n \<Rightarrow> Inr (if negative then - int n else int n)))"

subsection \<open>The table\<close>

text \<open>
  One partition \<open>BL_<pathname>\<close> holds the block items of a file. A partition is kept as
  the list of its items in ascending order of the sort key, which is the order in which a
  Query returns them (the pages of a paginated Query, concatenated).
\<close>

record block_item =
  item_data :: bytes
  item_size :: int

record lock_item =
  lk_level :: "int option"
  lk_owner :: "string option"
  lk_count :: "int option"

type_synonym 'v partition = "(string \<times> 'v) list"

fun part_put :: "string \<Rightarrow> 'v \<Rightarrow> 'v partition \<Rightarrow> 'v partition" where
  "part_put k v [] = [(k, v)]"
| "part_put k v ((k', v') # xs) =
     (if k < k' then (k, v) # (k', v') # xs
      else if k = k' then (k, v) # xs
      else (k', v') # part_put k v xs)"

definition part_delete :: "string \<Rightarrow> 'v partition \<Rightarrow> 'v partition" where
  "part_delete k xs = filter (\<lambda>kv. fst kv \<noteq> k) xs"

record table =
  block_items :: "string \<Rightarrow> block_item partition"
  fsize_items :: "string \<rightharpoonup> int"
  lock_items :: "string \<rightharpoonup> lock_item"

definition empty_table :: table where
  "empty_table = \<lparr>block_items = (\<lambda>_. []), fsize_items = Map.empty, lock_items = Map.empty\<rparr>"

text \<open>The per-open state of \<open>DDBVFSFile\<close>.\<close>

record handle =
  key_prefix :: string
  block_size :: int
  attained_log_level :: int
  client_id :: string

subsection \<open>Block coordinates\<close>

text \<open>
  The generator \<open>_blocks\<close>, as the list of the triples it yields. The loop need not
  terminate for every block size, so the result is optional: \<open>None\<close> is a generator
  that never finishes. Division by a zero block size raises on the first iteration.
\<close>

partial_function (option) blocks ::
  "int \<Rightarrow> int \<Rightarrow> int \<Rightarrow> (error + (int \<times> int \<times> int) list) option" where
  "blocks B offset amount =
     (if amount > 0 then
        (if B = 0 then Some (Inl ZeroDivisionError)
         else
           let block = offset div B;
               start = offset mod B;
               consume = min (B - start) amount
           in Option.bind (blocks B (offset + consume) (amount - consume))
                (\<lambda>rest. Some (case rest of Inl e \<Rightarrow> Inl e
                                  | Inr ts \<Rightarrow> Inr ((block, start, consume) # ts))))
      else Some (Inr []))"

text \<open>The same triples as a total function, for block sizes of at least one.\<close>

function blocks_list :: "int \<Rightarrow> int \<Rightarrow> int \<Rightarrow> (int \<times> int \<times> int) list" where
  "blocks_list B offset amount =
     (if 0 < amount \<and> 1 \<le> B then
        (offset div B, offset mod B, min (B - offset mod B) amount)
          # blocks_list B (offset + min (B - offset mod B) amount)
                          (amount - min (B - offset mod B) amount)
      else [])"
  by pat_completeness auto
termination
proof (relation "measure (\<lambda>(B, offset, amount). nat amount)")
  show "wf (measure (\<lambda>(B, offset, amount). nat amount))" by simp
next
  fix B offset amount :: int
  assume a: "0 < amount \<and> 1 \<le> B"
  then have "offset mod B < B" by simp
  then have "1 \<le> B - offset mod B" by linarith
  with a have "1 \<le> min (B - offset mod B) amount" by simp
  with a show "((B, offset + min (B - offset mod B) amount, amount - min (B - offset mod B) amount),
                 (B, offset, amount)) \<in> measure (\<lambda>(B, offset, amount). nat amount)"
    by simp
qed

declare blocks_list.simps [simp del]

subsection \<open>The lock manager\<close>

abbreviation (input) SQLITE_LOCK_NONE :: int where "SQLITE_LOCK_NONE \<equiv> 0"
abbreviation (input) SQLITE_LOCK_SHARED :: int where "SQLITE_LOCK_SHARED \<equiv> 1"
abbreviation (input) SQLITE_LOCK_RESERVED :: int where "SQLITE_LOCK_RESERVED \<equiv> 2"
abbreviation (input) SQLITE_LOCK_PENDING :: int where "SQLITE_LOCK_PENDING \<equiv> 3"
abbreviation (input) SQLITE_LOCK_EXCLUSIVE :: int where "SQLITE_LOCK_EXCLUSIVE \<equiv> 4"

text \<open>
  The item \<open>(LK, pathname)\<close> as the store's expressions see it: on a missing item every
  attribute is absent.
\<close>

definition lock_record :: "table \<Rightarrow> string \<Rightarrow> lock_item" where
  "lock_record t P =
     (case lock_items t P of
        None \<Rightarrow> \<lparr>lk_level = None, lk_owner = None, lk_count = None\<rparr>
      | Some it \<Rightarrow> it)"

text \<open>
  UpdateItem on the lock item: the condition expression is a predicate on the stored item
  and the update expression a function on it, which fails where it reads an attribute the
  item does not have. A failed condition is \<open>ConditionalCheckFailedException\<close>.
\<close>

definition update_item_lock ::
  "table \<Rightarrow> string \<Rightarrow> (lock_item \<Rightarrow> bool) \<Rightarrow> (lock_item \<Rightarrow> error + lock_item) \<Rightarrow> error + table" where
  "update_item_lock t P cond upd =
     (let it = lock_record t P in
      if \<not> cond it then Inl ConditionalCheckFailedException
      else case upd it of
             Inl e \<Rightarrow> Inl e
           | Inr it' \<Rightarrow> Inr (t\<lparr>lock_items := (lock_items t)(P \<mapsto> it')\<rparr>))"

text \<open>PutItem on the lock item replaces the whole item.\<close>

definition put_item_lock ::
  "table \<Rightarrow> string \<Rightarrow> (lock_item \<Rightarrow> bool) \<Rightarrow> lock_item \<Rightarrow> error + table" where
  "put_item_lock t P cond it' =
     (if \<not> cond (lock_record t P) then Inl ConditionalCheckFailedException
      else Inr (t\<lparr>lock_items := (lock_items t)(P \<mapsto> it')\<rparr>))"

text \<open>The update expressions of \<open>xLock\<close> and \<open>xUnlock\<close>.\<close>

definition set_count_incr :: "lock_item \<Rightarrow> error + lock_item" where
  \<comment> \<open>\<open>SET #cnt = if_not_exists(#cnt, :initial) + :increment\<close> with 0 and 1\<close>
  "set_count_incr it =
     Inr (it\<lparr>lk_count := Some ((case lk_count it of None \<Rightarrow> 0 | Some c \<Rightarrow> c) + 1)\<rparr>)"

definition set_level_owner :: "int \<Rightarrow> string \<Rightarrow> lock_item \<Rightarrow> error + lock_item" where
  \<comment> \<open>\<open>SET #lvl = :level, #own = :owner\<close>\<close>
  "set_level_owner lvl own it = Inr (it\<lparr>lk_level := Some lvl, lk_owner := Some own\<rparr>)"

definition remove_level_owner :: "lock_item \<Rightarrow> error + lock_item" where
  \<comment> \<open>\<open>REMOVE #lvl, #own\<close>\<close>
  "remove_level_owner it = Inr (it\<lparr>lk_level := None, lk_owner := None\<rparr>)"

definition set_count_minus :: "int \<Rightarrow> lock_item \<Rightarrow> error + lock_item" where
  \<comment> \<open>\<open>SET #cnt = #cnt - :increment\<close>\<close>
  "set_count_minus increment it =
     (case lk_count it of
        None \<Rightarrow> Inl ValidationException
      | Some c \<Rightarrow> Inr (it\<lparr>lk_count := Some (c - increment)\<rparr>))"

definition set_count_minus_remove :: "int \<Rightarrow> lock_item \<Rightarrow> error + lock_item" where
  \<comment> \<open>\<open>SET #cnt = #cnt - :increment REMOVE #lvl, #own\<close>\<close>
  "set_count_minus_remove increment it =
     (case lk_count it of
        None \<Rightarrow> Inl ValidationException
      | Some c \<Rightarrow> Inr (it\<lparr>lk_count := Some (c - increment), lk_level := None, lk_owner := None\<rparr>))"

text \<open>The handler of \<open>xLock\<close>: a failed condition becomes \<open>BusyError\<close>, anything else is
  raised again.\<close>

definition busy_of :: "error \<Rightarrow> error" where
  "busy_of e = (if e = ConditionalCheckFailedException then BusyError else e)"

text \<open>
  \<open>xLock\<close> and \<open>xUnlock\<close> return the raised exception, if any, with the handle and the
  table as the call leaves them.
\<close>

definition xLock :: "handle \<Rightarrow> table \<Rightarrow> int \<Rightarrow> error option \<times> handle \<times> table" where
  "xLock h t level =
     (if level = SQLITE_LOCK_NONE \<or> level = SQLITE_LOCK_PENDING then (Some AssertionError, h, t)
      else if level = attained_log_level h then (None, h, t)
      else if level = SQLITE_LOCK_SHARED then
        (case update_item_lock t (key_prefix h)
                (\<lambda>it. lk_level it = None \<or> lk_level it = Some SQLITE_LOCK_RESERVED)
                set_count_incr of
           Inr t' \<Rightarrow> (None, h\<lparr>attained_log_level := SQLITE_LOCK_SHARED\<rparr>, t')
         | Inl e \<Rightarrow> (Some (busy_of e), h, t))
      else
        (case (if attained_log_level h \<noteq> SQLITE_LOCK_PENDING then
                 (case update_item_lock t (key_prefix h)
                         (\<lambda>it. lk_owner it = None \<or> lk_owner it = Some (client_id h))
                         (set_level_owner SQLITE_LOCK_PENDING (client_id h)) of
                    Inr t' \<Rightarrow> (None, h\<lparr>attained_log_level := SQLITE_LOCK_PENDING\<rparr>, t')
                  | Inl e \<Rightarrow> (Some (busy_of e), h, t))
               else (None, h, t)) of
           (Some e, h1, t1) \<Rightarrow> (Some e, h1, t1)
         | (None, h1, t1) \<Rightarrow>
             (case update_item_lock t1 (key_prefix h1)
                     (if level = SQLITE_LOCK_RESERVED
                      then (\<lambda>it. lk_owner it = Some (client_id h1))
                      else (\<lambda>it. lk_owner it = Some (client_id h1) \<and> lk_count it = Some 1))
                     (set_level_owner level (client_id h1)) of
                Inr t' \<Rightarrow> (None, h1\<lparr>attained_log_level := level\<rparr>, t')
              | Inl e \<Rightarrow> (Some (busy_of e), h1, t1))))"

definition xUnlock :: "handle \<Rightarrow> table \<Rightarrow> int \<Rightarrow> error option \<times> handle \<times> table" where
  "xUnlock h t level =
     (if level = attained_log_level h then (None, h, t)
      else
        (case (if level \<ge> SQLITE_LOCK_RESERVED then
                 (case put_item_lock t (key_prefix h)
                         (\<lambda>it. lk_owner it = Some (client_id h))
                         \<lparr>lk_level = Some level, lk_owner = Some (client_id h), lk_count = Some 1\<rparr> of
                    Inr t' \<Rightarrow> (None, h\<lparr>attained_log_level := level\<rparr>, t')
                  | Inl e \<Rightarrow> (Some e, h, t))
               else (None, h, t)) of
           (Some e, h1, t1) \<Rightarrow> (Some e, h1, t1)
         | (None, h1, t1) \<Rightarrow>
        (case (if level = SQLITE_LOCK_SHARED then
                 (case update_item_lock t1 (key_prefix h1)
                         (\<lambda>it. lk_owner it = Some (client_id h1))
                         remove_level_owner of
                    Inr t' \<Rightarrow> (None, h1\<lparr>attained_log_level := level\<rparr>, t')
                  | Inl e \<Rightarrow> (Some e, h1, t1))
               else (None, h1, t1)) of
           (Some e, h2, t2) \<Rightarrow> (Some e, h2, t2)
         | (None, h2, t2) \<Rightarrow>
             (if level = SQLITE_LOCK_NONE then
                (if attained_log_level h2 > SQLITE_LOCK_SHARED then
                   (case update_item_lock t2 (key_prefix h2)
                           (\<lambda>it. lk_owner it = Some (client_id h2))
                           (set_count_minus_remove 1) of
                      Inr t' \<Rightarrow> (None, h2, t')
                    | Inl e \<Rightarrow> (Some e, h2, t2))
                 else
                   (let increment = (if attained_log_level h2 > 0 then 1 else 0) in
                    case update_item_lock t2 (key_prefix h2) (\<lambda>it. True)
                           (set_count_minus increment) of
                      Inr t' \<Rightarrow> (None, h2\<lparr>attained_log_level := level\<rparr>, t')
                    | Inl e \<Rightarrow> (Some e, h2, t2)))
              else (None, h2, t2)))))"

subsection \<open>The block store\<close>

text \<open>The sort key of a block and the partition of the handle's file.\<close>

definition block_partition :: "handle \<Rightarrow> table \<Rightarrow> block_item partition" where
  "block_partition h t = block_items t (key_prefix h)"

definition set_block_partition :: "handle \<Rightarrow> table \<Rightarrow> block_item partition \<Rightarrow> table" where
  "set_block_partition h t p = t\<lparr>block_items := (block_items t)(key_prefix h := p)\<rparr>"

definition block_get_bytes :: "handle \<Rightarrow> table \<Rightarrow> int \<Rightarrow> bytes" where
  "block_get_bytes h t block =
     (case map_of (block_partition h t) (fmt010 block) of
        None \<Rightarrow> []
      | Some it \<Rightarrow> item_data it)"

text \<open>\<open>_block_put_bytes\<close>: PutItem with \<open>ReturnValues = ALL_OLD\<close>; the result is the change
  of the stored size.\<close>

definition block_put_bytes :: "handle \<Rightarrow> table \<Rightarrow> int \<Rightarrow> bytes \<Rightarrow> int \<times> table" where
  "block_put_bytes h t block bs =
     (let size = int (length bs);
          old = map_of (block_partition h t) (fmt010 block);
          t' = set_block_partition h t
                 (part_put (fmt010 block) \<lparr>item_data = bs, item_size = size\<rparr> (block_partition h t));
          dsize = (case old of None \<Rightarrow> size | Some it \<Rightarrow> size - item_size it)
      in (dsize, t'))"

text \<open>\<open>_block_delete\<close>: DeleteItem with \<open>ReturnValues = ALL_OLD\<close>; reading the old size
  of an item that was not there is a \<open>KeyError\<close>, raised after the request.\<close>

definition block_delete :: "handle \<Rightarrow> table \<Rightarrow> int \<Rightarrow> error + (int \<times> table)" where
  "block_delete h t block =
     (case map_of (block_partition h t) (fmt010 block) of
        None \<Rightarrow> Inl KeyError
      | Some it \<Rightarrow>
          Inr (- item_size it,
               set_block_partition h t (part_delete (fmt010 block) (block_partition h t))))"

text \<open>
  DynamoDB reserves a list of words. An expression that names an attribute by a reserved
  word itself, rather than through a \<open>#\<close> placeholder of \<open>ExpressionAttributeNames\<close>, is
  rejected with a \<open>ValidationException\<close>, and the request changes nothing. Of the
  attribute names of this table, \<open>count\<close>, \<open>level\<close>, \<open>owner\<close> and \<open>size\<close> are reserved; the
  update expressions of the lock manager go through \<open>#cnt\<close>, \<open>#lvl\<close> and \<open>#own\<close>.
\<close>

definition reserved_word :: "string \<Rightarrow> bool" where
  "reserved_word w \<longleftrightarrow> w \<in> set [''count'', ''level'', ''owner'', ''size'']"

text \<open>\<open>_update_total_size\<close>: an UpdateItem with \<open>UpdateExpression = 'ADD size :dsize'\<close> and
  no \<open>ExpressionAttributeNames\<close>, so the expression names the attribute \<open>size\<close> itself. An
  accepted \<open>ADD\<close> creates the item when it is absent.\<close>

definition update_total_size :: "handle \<Rightarrow> table \<Rightarrow> int \<Rightarrow> error + table" where
  "update_total_size h t dsize =
     (if reserved_word ''size'' then Inl ValidationException
      else Inr (t\<lparr>fsize_items := (fsize_items t)(key_prefix h \<mapsto>
             (case fsize_items t (key_prefix h) of None \<Rightarrow> dsize | Some s \<Rightarrow> s + dsize))\<rparr>))"

definition get_total_size :: "handle \<Rightarrow> table \<Rightarrow> int" where
  "get_total_size h t = (case fsize_items t (key_prefix h) of None \<Rightarrow> 0 | Some s \<Rightarrow> s)"

definition xFileSize :: "handle \<Rightarrow> table \<Rightarrow> int" where
  "xFileSize h t = get_total_size h t"

subsection \<open>Reading and writing\<close>

definition xRead :: "handle \<Rightarrow> table \<Rightarrow> int \<Rightarrow> int \<Rightarrow> (error + bytes) option" where
  "xRead h t amount offset =
     (case blocks (block_size h) offset amount of
        None \<Rightarrow> None
      | Some (Inl e) \<Rightarrow> Some (Inl e)
      | Some (Inr ts) \<Rightarrow>
          Some (Inr (concat (map (\<lambda>(block, start, consume).
                       py_slice (block_get_bytes h t block) start (start + consume)) ts))))"

text \<open>The loop over the blocks before the lock page, with its \<open>break\<close>. An exception
  leaves the loop with the table as the requests made so far have left it.\<close>

fun pad_blocks ::
  "handle \<Rightarrow> int list \<Rightarrow> int \<times> table \<Rightarrow> (error \<times> table) + (int \<times> table)" where
  "pad_blocks h [] (dsize, t) = Inr (dsize, t)"
| "pad_blocks h (block # rest) (dsize, t) =
     (let original_block_bytes = block_get_bytes h t block in
      if int (length original_block_bytes) = block_size h then Inr (dsize, t)
      else
        (case zero_bytes (block_size h - int (length original_block_bytes)) of
           Inl e \<Rightarrow> Inl (e, t)
         | Inr z \<Rightarrow>
             (let (d, t') = block_put_bytes h t block (original_block_bytes @ z)
              in pad_blocks h rest (dsize + d, t'))))"

text \<open>The bytes put into one block of the written range: the slice of the data, spliced
  into the stored block unless it covers a whole block.\<close>

definition data_to_write :: "handle \<Rightarrow> table \<Rightarrow> bytes \<Rightarrow> int \<Rightarrow> int \<times> int \<times> int \<Rightarrow> bytes" where
  "data_to_write h t data data_offset = (\<lambda>(block, start, write).
     (let data_to_write = py_slice data data_offset (data_offset + write) in
      if start \<noteq> 0 \<or> int (length data_to_write) \<noteq> block_size h then
        (let original_block_bytes = block_get_bytes h t block;
             original_block_bytes = original_block_bytes
               @ replicate (nat (max (start - int (length original_block_bytes)) 0)) 0
         in py_slice original_block_bytes 0 start
            @ data_to_write
            @ py_slice_from original_block_bytes (start + write))
      else data_to_write))"

text \<open>The loop over the triples of the written range.\<close>

fun write_blocks ::
  "handle \<Rightarrow> bytes \<Rightarrow> (int \<times> int \<times> int) list \<Rightarrow> int \<Rightarrow> int \<times> table \<Rightarrow> int \<times> table" where
  "write_blocks h data [] data_offset (dsize, t) = (dsize, t)"
| "write_blocks h data ((block, start, write) # ts) data_offset (dsize, t) =
     (let (d, t') = block_put_bytes h t block
                      (data_to_write h t data data_offset (block, start, write))
      in write_blocks h data ts (data_offset + write) (dsize + d, t'))"

text \<open>No stored block of the handle's file is longer than the block size.\<close>

definition blocks_bounded :: "handle \<Rightarrow> table \<Rightarrow> bool" where
  "blocks_bounded h t =
     list_all (\<lambda>kv. int (length (item_data (snd kv))) \<le> block_size h) (block_partition h t)"

definition lock_page_offset :: int where
  "lock_page_offset = 1073741824"

text \<open>The first part of \<open>xWrite\<close>: on the write just after the lock page, the blocks
  from the one before the first data block down to the one holding the lock-page offset
  are padded; any other write leaves this part out.\<close>

definition pad_lock_page ::
  "handle \<Rightarrow> table \<Rightarrow> bytes \<Rightarrow> int \<Rightarrow> (error \<times> table) + (int \<times> table)" where
  "pad_lock_page h t data offset =
     (let page_size = int (length data) in
      if offset = lock_page_offset + page_size then
        (if block_size h = 0 then Inl (ZeroDivisionError, t)
         else
           (let data_first_block = offset div block_size h;
                lock_page_block = lock_page_offset div block_size h
            in pad_blocks h (py_range_down (data_first_block - 1) (lock_page_block - 1)) (0, t)))
      else Inr (0, t))"

text \<open>\<open>xWrite\<close>: the padding, the loop over the triples and, last, the one call of
  \<open>_update_total_size\<close> with the accumulated change. The \<open>except\<close> clause prints and
  raises again, so the result is the exception raised, if any, with the table as the
  call leaves it.\<close>

definition xWrite ::
  "handle \<Rightarrow> table \<Rightarrow> bytes \<Rightarrow> int \<Rightarrow> (error option \<times> table) option" where
  "xWrite h t data offset =
     (case pad_lock_page h t data offset of
        Inl (e, t') \<Rightarrow> Some (Some e, t')
      | Inr (dsize, t1) \<Rightarrow>
          (case blocks (block_size h) offset (int (length data)) of
             None \<Rightarrow> None
           | Some (Inl e) \<Rightarrow> Some (Some e, t1)
           | Some (Inr ts) \<Rightarrow>
               (let (dsize', t2) = write_blocks h data ts 0 (dsize, t1)
                in (case update_total_size h t2 dsize' of
                      Inl e \<Rightarrow> Some (Some e, t2)
                    | Inr t3 \<Rightarrow> Some (None, t3)))))"

subsection \<open>Truncation\<close>

text \<open>The loop of \<open>xTruncate\<close> over the items of the Query, with the running total. An
  exception leaves the loop with the table as the requests made so far have left it.\<close>

fun truncate_items ::
  "handle \<Rightarrow> int \<Rightarrow> block_item partition \<Rightarrow> int \<Rightarrow> int \<times> table
     \<Rightarrow> (error \<times> table) + (int \<times> table)" where
  "truncate_items h newsize [] total_sz (dsize, t) = Inr (dsize, t)"
| "truncate_items h newsize ((range_key, obj) # rest) total_sz (dsize, t) =
     (let total_sz = total_sz + item_size obj;
          to_keep = max (item_size obj - total_sz + newsize) 0
      in if to_keep = 0 then
           (case py_int range_key of
              Inl e \<Rightarrow> Inl (e, t)
            | Inr block \<Rightarrow>
                (case block_delete h t block of
                   Inl e \<Rightarrow> Inl (e, t)
                 | Inr (d, t') \<Rightarrow> truncate_items h newsize rest total_sz (dsize + d, t')))
         else if to_keep < item_size obj then
           (case py_int range_key of
              Inl e \<Rightarrow> Inl (e, t)
            | Inr block \<Rightarrow>
                (let block_bytes = block_get_bytes h t block;
                     (d, t') = block_put_bytes h t block (py_slice block_bytes 0 to_keep)
                 in truncate_items h newsize rest total_sz (dsize + d, t')))
         else truncate_items h newsize rest total_sz (dsize, t))"

text \<open>\<open>xTruncate\<close>: the loop and, last, the one call of \<open>_update_total_size\<close>; the result is
  the exception raised, if any, with the table as the call leaves it.\<close>

definition xTruncate :: "handle \<Rightarrow> table \<Rightarrow> int \<Rightarrow> error option \<times> table" where
  "xTruncate h t newsize =
     (case truncate_items h newsize (block_partition h t) 0 (0, t) of
        Inl (e, t') \<Rightarrow> (Some e, t')
      | Inr (dsize, t') \<Rightarrow>
          (case update_total_size h t' dsize of
             Inl e \<Rightarrow> (Some e, t')
           | Inr t'' \<Rightarrow> (None, t'')))"

text \<open>The bytes \<open>xRead\<close> joins for a list of triples.\<close>

definition read_blocks :: "handle \<Rightarrow> table \<Rightarrow> (int \<times> int \<times> int) list \<Rightarrow> bytes" where
  "read_blocks h t ts =
     concat (map (\<lambda>(block, start, consume).
                    py_slice (block_get_bytes h t block) start (start + consume)) ts)"

subsection \<open>Serialisation\<close>

text \<open>\<open>serialize_iter\<close>: the data of the block items of a file, in the order of the Query.\<close>

definition serialize_iter :: "table \<Rightarrow> string \<Rightarrow> bytes list" where
  "serialize_iter t pathname = map (\<lambda>kv. item_data (snd kv)) (block_items t pathname)"

subsection \<open>Deserialisation\<close>

text \<open>
  The state shared by the calls of \<open>up_to_iter\<close>: the current chunk, the offset into it
  and what is left of the source iterator. \<open>refill\<close> is the first statement of the loop
  body: at the end of the chunk the next one is taken, and \<open>None\<close> is \<open>StopIteration\<close>.
\<close>

type_synonym rechunk_state = "bytes \<times> int \<times> bytes list"

definition refill :: "rechunk_state \<Rightarrow> rechunk_state option" where
  "refill st =
     (case st of (chunk, offset, it) \<Rightarrow>
        if offset = int (length chunk) then
          (case it of [] \<Rightarrow> None | c # it' \<Rightarrow> Some (c, 0, it'))
        else Some (chunk, offset, it))"

text \<open>\<open>up_to_iter(num)\<close>: the pieces it yields and the state it leaves. The loops of the
  deserialiser are not structurally recursive, so their results are optional.\<close>

partial_function (option) up_to_iter ::
  "int \<Rightarrow> rechunk_state \<Rightarrow> (bytes list \<times> rechunk_state) option" where
  "up_to_iter num st =
     (if num \<noteq> 0 then
        (case refill st of
           None \<Rightarrow> Some ([], st)
         | Some st1 \<Rightarrow>
             (let chunk = fst st1;
                  offset = fst (snd st1);
                  it = snd (snd st1);
                  to_yield = min num (int (length chunk) - offset);
                  offset = offset + to_yield
              in Option.bind (up_to_iter (num - to_yield) (chunk, offset, it))
                   (\<lambda>r. Some (py_slice chunk (offset - to_yield) offset # fst r, snd r))))
      else Some ([], st))"

text \<open>\<open>block_bytes_iter\<close>: the blocks, each the join of one \<open>up_to_iter(block_size)\<close>, up to
  the first empty one.\<close>

partial_function (option) block_bytes_iter ::
  "int \<Rightarrow> rechunk_state \<Rightarrow> bytes list option" where
  "block_bytes_iter B st =
     Option.bind (up_to_iter B st)
       (\<lambda>r. let block = concat (fst r) in
             if block = [] then Some []
             else Option.bind (block_bytes_iter B (snd r)) (\<lambda>bs. Some (block # bs)))"

text \<open>The loop of \<open>deserialize_iter\<close> over the enumerated blocks.\<close>

fun put_blocks :: "string \<Rightarrow> bytes list \<Rightarrow> int \<Rightarrow> int \<Rightarrow> table \<Rightarrow> int \<times> table" where
  "put_blocks path [] block total_sz t = (total_sz, t)"
| "put_blocks path (block_bytes # rest) block total_sz t =
     (let size = int (length block_bytes);
          total_sz = total_sz + size;
          t' = t\<lparr>block_items := (block_items t)(path :=
                 part_put (fmt010 block) \<lparr>item_data = block_bytes, item_size = size\<rparr>
                   (block_items t path))\<rparr>
      in put_blocks path rest (block + 1) total_sz t')"

definition deserialize_iter :: "int \<Rightarrow> table \<Rightarrow> string \<Rightarrow> bytes list \<Rightarrow> table option" where
  "deserialize_iter B t path bytes_iter =
     (case block_bytes_iter B ([], 0, bytes_iter) of
        None \<Rightarrow> None
      | Some bs \<Rightarrow>
          (let (total_sz, t') = put_blocks path bs 0 0 t
           in Some (t'\<lparr>fsize_items := (fsize_items t')(path \<mapsto> total_sz)\<rparr>)))"

text \<open>A byte string cut into pieces of \<open>n\<close> bytes, the last one possibly shorter.\<close>

function chunks :: "nat \<Rightarrow> 'a list \<Rightarrow> 'a list list" where
  "chunks n xs = (if xs = [] \<or> n = 0 then [] else take n xs # chunks n (drop n xs))"
  by pat_completeness auto
termination
  by (relation "measure (\<lambda>(n, xs). length xs)") auto

declare chunks.simps [simp del]

text \<open>The decimal digits of \<open>n\<close> in exactly \<open>w\<close> places, and the items that the blocks
  \<open>bs\<close> become when they are numbered from \<open>i\<close>.\<close>

fun fixed_digits :: "nat \<Rightarrow> nat \<Rightarrow> string" where
  "fixed_digits 0 n = []"
| "fixed_digits (Suc w) n = fixed_digits w (n div 10) @ [digit_char (n mod 10)]"

fun enum_items :: "int \<Rightarrow> bytes list \<Rightarrow> block_item partition" where
  "enum_items i [] = []"
| "enum_items i (b # bs) =
     (fmt010 i, \<lparr>item_data = b, item_size = int (length b)\<rparr>) # enum_items (i + 1) bs"

text \<open>The states of the rechunker in which the offset lies inside the chunk, and the
  bytes such a state has still to deliver.\<close>

definition remaining :: "rechunk_state \<Rightarrow> bytes" where
  "remaining st = (case st of (chunk, offset, it) \<Rightarrow> drop (nat offset) chunk @ concat it)"

definition state_ok :: "rechunk_state \<Rightarrow> bool" where
  "state_ok st = (case st of (chunk, offset, it) \<Rightarrow> 0 \<le> offset \<and> offset \<le> int (length chunk))"

subsection \<open>Well-formed stores\<close>

text \<open>
  The store as the program itself leaves it: the sort keys of the partition ascend
  strictly (one item per key), each key is the ten-digit format of a block number
  \<open>\<ge> 0\<close>, each item records the length of its data as its size, and every block holds
  at least one byte and at most \<open>block_size\<close> bytes.
\<close>

definition wf_store :: "handle \<Rightarrow> table \<Rightarrow> bool" where
  "wf_store h t \<longleftrightarrow>
     sorted_wrt (<) (map fst (block_partition h t))
     \<and> list_all (\<lambda>kv. (\<exists>n\<ge>0. fst kv = fmt010 n)
                    \<and> item_size (snd kv) = int (length (item_data (snd kv)))
                    \<and> 1 \<le> int (length (item_data (snd kv)))
                    \<and> int (length (item_data (snd kv))) \<le> block_size h)
          (block_partition h t)"

text \<open>The sum of \<open>len(data)\<close> over the block items of the handle's file.\<close>

definition stored_bytes :: "handle \<Rightarrow> table \<Rightarrow> int" where
  "stored_bytes h t =
     sum_list (map (\<lambda>kv. int (length (item_data (snd kv)))) (block_partition h t))"

text \<open>The content of the file: its blocks joined in the order of the Query.\<close>

definition file_content :: "handle \<Rightarrow> table \<Rightarrow> bytes" where
  "file_content h t = concat (serialize_iter t (key_prefix h))"

text \<open>What a truncation makes of the list of items, as a function on the list alone:
  an item wholly beyond the new size goes, the item across the new size keeps its first
  \<open>to_keep\<close> bytes, an earlier item stays.\<close>

fun trunc_list :: "int \<Rightarrow> int \<Rightarrow> block_item partition \<Rightarrow> block_item partition" where
  "trunc_list newsize total_sz [] = []"
| "trunc_list newsize total_sz ((k, obj) # rest) =
     (let total_sz = total_sz + item_size obj;
          to_keep = max (item_size obj - total_sz + newsize) 0
      in if to_keep = 0 then trunc_list newsize total_sz rest
         else if to_keep < item_size obj then
           (k, \<lparr>item_data = take (nat to_keep) (item_data obj), item_size = to_keep\<rparr>)
             # trunc_list newsize total_sz rest
         else (k, obj) # trunc_list newsize total_sz rest)"


definition padded :: "handle \<Rightarrow> table \<Rightarrow> int \<Rightarrow> bytes" where
  "padded h t b =
     block_get_bytes h t b
       @ replicate (nat (block_size h - int (length (block_get_bytes h t b)))) 0"

text \<open>The sum of the data lengths of a list of items.\<close>

abbreviation data_sizes :: "block_item partition \<Rightarrow> int" where
  "data_sizes xs \<equiv> sum_list (map (\<lambda>kv. int (length (item_data (snd kv)))) xs)"

subsection \<open>A small store for concrete runs\<close>

definition example_handle :: handle where
  "example_handle = \<lparr>key_prefix = ''db'', block_size = 4, attained_log_level = 0, client_id = ''c1''\<rparr>"

definition example_table :: table where
  "example_table = \<lparr>block_items = (\<lambda>_. [])(''db'' :=
           [(''0000000000'', \<lparr>item_data = [1, 2, 3, 4], item_size = 4\<rparr>),
            (''0000000001'', \<lparr>item_data = [5, 6], item_size = 2\<rparr>)]),
      fsize_items = [''db'' \<mapsto> 6], lock_items = Map.empty\<rparr>"

text \<open>Stores whose block holding the lock-page offset is two bytes long, and six bytes
  long, as a handle with a block size of eight may have written it.\<close>

definition long_block_table :: table where
  "long_block_table = \<lparr>block_items = (\<lambda>_. [])(''db'' :=
           [(''0268435456'', \<lparr>item_data = [7, 7, 7, 7, 7, 7], item_size = 6\<rparr>)]),
      fsize_items = [''db'' \<mapsto> 6], lock_items = Map.empty\<rparr>"


section \<open>Properties of the block coordinates\<close>

lemma blocks_eq_list:
  "1 \<le> B \<Longrightarrow> blocks B offset amount = Some (Inr (blocks_list B offset amount))"
proof (induction B offset amount rule: blocks_list.induct)
  case (1 B offset amount)
  show ?case
  proof (cases "0 < amount")
    case True
    with 1 show ?thesis
      by (subst blocks.simps, subst blocks_list.simps) (simp add: Let_def)
  next
    case False
    then show ?thesis
      by (subst blocks.simps, subst blocks_list.simps) simp
  qed
qed

lemma blocks_list_Nil: "\<not> (0 < amount \<and> 1 \<le> B) \<Longrightarrow> blocks_list B offset amount = []"
  by (subst blocks_list.simps) simp

lemma blocks_list_Cons:
  "0 < amount \<Longrightarrow> 1 \<le> B \<Longrightarrow>
   blocks_list B offset amount =
     (offset div B, offset mod B, min (B - offset mod B) amount)
       # blocks_list B (offset + min (B - offset mod B) amount)
                       (amount - min (B - offset mod B) amount)"
  by (subst blocks_list.simps) simp

lemma blocks_list_triple:
  "(b, s, c) \<in> set (blocks_list B offset amount) \<Longrightarrow>
     1 \<le> c \<and> 0 \<le> s \<and> s + c \<le> B \<and> offset \<le> b * B + s"
proof (induction B offset amount rule: blocks_list.induct)
  case (1 B offset amount)
  show ?case
  proof (cases "0 < amount \<and> 1 \<le> B")
    case False
    with 1(2) show ?thesis by (simp add: blocks_list_Nil)
  next
    case True
    let ?c = "min (B - offset mod B) amount"
    have m: "0 \<le> offset mod B" "offset mod B < B" using True by simp_all
    then have cpos: "1 \<le> ?c" using True by linarith
    from 1(2) True consider
      (hd) "b = offset div B" "s = offset mod B" "c = ?c"
      | (tl) "(b, s, c) \<in> set (blocks_list B (offset + ?c) (amount - ?c))"
      by (subst (asm) blocks_list_Cons) auto
    then show ?thesis
    proof cases
      case hd
      have "offset = offset div B * B + offset mod B" by simp
      with hd m cpos show ?thesis by simp
    next
      case tl
      from 1(1)[OF True tl] cpos show ?thesis by linarith
    qed
  qed
qed

lemma blocks_list_sum:
  "1 \<le> B \<Longrightarrow> 0 \<le> amount \<Longrightarrow>
   sum_list (map (\<lambda>(block, start, consume). consume) (blocks_list B offset amount)) = amount"
proof (induction B offset amount rule: blocks_list.induct)
  case (1 B offset amount)
  show ?case
  proof (cases "0 < amount")
    case False
    with 1(3) show ?thesis by (simp add: blocks_list_Nil)
  next
    case True
    let ?c = "min (B - offset mod B) amount"
    have "0 \<le> amount - ?c" by simp
    with 1(1)[of] True 1(2) have
      "sum_list (map (\<lambda>(block, start, consume). consume) (blocks_list B (offset + ?c) (amount - ?c))) = amount - ?c"
      by simp
    with True 1(2) show ?thesis by (simp add: blocks_list_Cons)
  qed
qed

lemma blocks_list_later:
  assumes "0 < amount" and "1 \<le> B"
    and "(b, s, c) \<in> set (blocks_list B (offset + min (B - offset mod B) amount)
                                         (amount - min (B - offset mod B) amount))"
  shows "offset div B < b"
proof -
  let ?c = "min (B - offset mod B) amount"
  let ?rest = "blocks_list B (offset + ?c) (amount - ?c)"
  from assms(3) have ne: "?rest \<noteq> []" by auto
  have "0 < amount - ?c"
  proof (rule ccontr)
    assume "\<not> 0 < amount - ?c"
    then have "?rest = []" by (simp add: blocks_list_Nil)
    with ne show False by simp
  qed
  then have c: "?c = B - offset mod B" by linarith
  from blocks_list_triple[OF assms(3)]
  have "offset + ?c \<le> b * B + s" "s + c \<le> B" "1 \<le> c" by simp_all
  then have "offset + ?c < b * B + B" by linarith
  moreover have "offset + ?c = (offset div B + 1) * B"
    unfolding c using div_mult_mod_eq[of offset B] by (simp add: algebra_simps)
  ultimately have "(offset div B + 1) * B < (b + 1) * B" by (simp add: algebra_simps)
  with assms(2) have "offset div B + 1 < b + 1" by (simp add: mult_less_cancel_right)
  then show ?thesis by simp
qed

lemma blocks_list_sorted:
  "sorted_wrt (<) (map fst (blocks_list B offset amount))"
proof (induction B offset amount rule: blocks_list.induct)
  case (1 B offset amount)
  show ?case
  proof (cases "0 < amount \<and> 1 \<le> B")
    case False
    then show ?thesis by (simp add: blocks_list_Nil)
  next
    case True
    let ?c = "min (B - offset mod B) amount"
    let ?rest = "blocks_list B (offset + ?c) (amount - ?c)"
    have "\<forall>x\<in>set (map fst ?rest). offset div B < x"
      using blocks_list_later True by auto
    with 1[OF True] True show ?thesis
      by (simp add: blocks_list_Cons)
  qed
qed

text \<open>
  C10: for a block size of at least one, a non-negative offset and a non-negative
  amount, the generator \<open>_blocks\<close> terminates with finitely many triples; every triple
  consumes at least one byte, the block numbers increase strictly, and the consumed
  counts add up to the amount.
\<close>

theorem blocks_terminates:
  assumes "1 \<le> B" and "0 \<le> offset" and "0 \<le> amount"
  shows "\<exists>ts. blocks B offset amount = Some (Inr ts)
           \<and> (\<forall>(block, start, consume) \<in> set ts. 1 \<le> consume)
           \<and> sorted_wrt (<) (map fst ts)
           \<and> sum_list (map (\<lambda>(block, start, consume). consume) ts) = amount"
proof -
  have "\<forall>(block, start, consume) \<in> set (blocks_list B offset amount). 1 \<le> consume"
    using blocks_list_triple by blast
  with assms show ?thesis
    by (simp add: blocks_eq_list blocks_list_sorted blocks_list_sum)
qed

theorem blocks_terminates_witness:
  "(1::int) \<le> 5 \<and> (0::int) \<le> 3 \<and> (0::int) \<le> 11
     \<and> blocks 5 3 11 = Some (Inr [(0, 3, 2), (1, 0, 5), (2, 0, 4)])"
  using blocks_terminates [of 5 3 11] by (simp add: blocks.simps)

section \<open>The lock manager\<close>

lemmas lock_defs = xLock_def xUnlock_def update_item_lock_def put_item_lock_def lock_record_def
  set_count_incr_def set_level_owner_def remove_level_owner_def set_count_minus_def
  set_count_minus_remove_def busy_of_def

text \<open>
  C3: \<open>xUnlock(target)\<close> below the attained level is claimed to leave the in-memory
  level equal to the target, in particular after the writer-to-NONE update
  \<open>SET count = count - 1 REMOVE level, owner\<close>. In the source the assignment of the
  attained level sits in the \<open>else\<close> branch of the NONE case only: a handle holding
  EXCLUSIVE that unlocks to NONE performs the update on the shared item and keeps
  \<open>attained = EXCLUSIVE\<close>.
\<close>

theorem xUnlock_writer_to_none_keeps_attained:
  "xUnlock \<lparr>key_prefix = ''db'', block_size = 4060, attained_log_level = 4, client_id = ''c1''\<rparr>
           (empty_table\<lparr>lock_items :=
              [''db'' \<mapsto> \<lparr>lk_level = Some 4, lk_owner = Some ''c1'', lk_count = Some 1\<rparr>]\<rparr>)
           0
   = (None,
      \<lparr>key_prefix = ''db'', block_size = 4060, attained_log_level = 4, client_id = ''c1''\<rparr>,
      empty_table\<lparr>lock_items :=
         [''db'' \<mapsto> \<lparr>lk_level = None, lk_owner = None, lk_count = Some 0\<rparr>]\<rparr>)"
  by (simp add: lock_defs empty_table_def)

text \<open>The other downgrades do set the attained level after their update.\<close>

lemma xUnlock_to_reserved:
  assumes "attained_log_level h \<noteq> level" and "SQLITE_LOCK_RESERVED \<le> level"
    and "lk_owner (lock_record t (key_prefix h)) = Some (client_id h)"
  shows "xUnlock h t level =
     (None, h\<lparr>attained_log_level := level\<rparr>,
      t\<lparr>lock_items := (lock_items t)(key_prefix h \<mapsto>
           \<lparr>lk_level = Some level, lk_owner = Some (client_id h), lk_count = Some 1\<rparr>)\<rparr>)"
  using assms by (simp add: xUnlock_def put_item_lock_def)

lemma xUnlock_to_shared:
  assumes "attained_log_level h \<noteq> SQLITE_LOCK_SHARED"
    and "lk_owner (lock_record t (key_prefix h)) = Some (client_id h)"
  shows "xUnlock h t SQLITE_LOCK_SHARED =
     (None, h\<lparr>attained_log_level := SQLITE_LOCK_SHARED\<rparr>,
      t\<lparr>lock_items := (lock_items t)(key_prefix h \<mapsto>
           (lock_record t (key_prefix h))\<lparr>lk_level := None, lk_owner := None\<rparr>)\<rparr>)"
  using assms by (simp add: xUnlock_def update_item_lock_def remove_level_owner_def Let_def)

lemma xUnlock_shared_to_none:
  assumes "attained_log_level h = SQLITE_LOCK_SHARED"
    and "lk_count (lock_record t (key_prefix h)) = Some c"
  shows "xUnlock h t SQLITE_LOCK_NONE =
     (None, h\<lparr>attained_log_level := SQLITE_LOCK_NONE\<rparr>,
      t\<lparr>lock_items := (lock_items t)(key_prefix h \<mapsto>
           (lock_record t (key_prefix h))\<lparr>lk_count := Some (c - 1)\<rparr>)\<rparr>)"
  using assms by (simp add: xUnlock_def update_item_lock_def set_count_minus_def Let_def)

lemma xUnlock_failed_condition_keeps_attained:
  assumes "attained_log_level h \<noteq> level"
    and "lk_owner (lock_record t (key_prefix h)) \<noteq> Some (client_id h)"
    and "SQLITE_LOCK_SHARED \<le> level"
  shows "xUnlock h t level = (Some ConditionalCheckFailedException, h, t)"
  using assms by (simp add: xUnlock_def update_item_lock_def put_item_lock_def Let_def)

text \<open>
  C4 as stated: every \<open>xLock(SHARED)\<close> call issues the conditional update that adds one
  to \<open>count\<close>. A handle that already holds SHARED returns before any request: the lock
  item keeps \<open>count = 1\<close> although its \<open>level\<close> is absent.
\<close>

theorem xLock_shared_noop_counterexample:
  "xLock \<lparr>key_prefix = ''db'', block_size = 4060, attained_log_level = 1, client_id = ''c1''\<rparr>
         (empty_table\<lparr>lock_items :=
            [''db'' \<mapsto> \<lparr>lk_level = None, lk_owner = None, lk_count = Some 1\<rparr>]\<rparr>)
         1
   = (None,
      \<lparr>key_prefix = ''db'', block_size = 4060, attained_log_level = 1, client_id = ''c1''\<rparr>,
      empty_table\<lparr>lock_items :=
         [''db'' \<mapsto> \<lparr>lk_level = None, lk_owner = None, lk_count = Some 1\<rparr>]\<rparr>)"
  by (simp add: lock_defs empty_table_def)

text \<open>
  C4, amended: for every \<open>xLock(SHARED)\<close> call on a handle whose attained level is not
  already SHARED, one conditional update is made on the lock item. If its \<open>level\<close> is
  absent or RESERVED, \<open>count\<close> becomes \<open>if_not_exists(count, 0) + 1\<close>, nothing else
  changes and the attained level becomes SHARED; otherwise \<open>BusyError\<close> is raised and
  neither the handle nor the table changes.
\<close>

theorem xLock_shared:
  assumes "attained_log_level h \<noteq> SQLITE_LOCK_SHARED"
  shows "xLock h t SQLITE_LOCK_SHARED =
     (if lk_level (lock_record t (key_prefix h)) = None
         \<or> lk_level (lock_record t (key_prefix h)) = Some SQLITE_LOCK_RESERVED
      then (None, h\<lparr>attained_log_level := SQLITE_LOCK_SHARED\<rparr>,
            t\<lparr>lock_items := (lock_items t)(key_prefix h \<mapsto>
                 (lock_record t (key_prefix h))
                   \<lparr>lk_count := Some ((case lk_count (lock_record t (key_prefix h)) of
                                         None \<Rightarrow> 0 | Some c \<Rightarrow> c) + 1)\<rparr>)\<rparr>)
      else (Some BusyError, h, t))"
  using assms by (simp add: xLock_def update_item_lock_def set_count_incr_def busy_of_def Let_def)

theorem xLock_shared_witness:
  "attained_log_level \<lparr>key_prefix = ''db'', block_size = 4060, attained_log_level = 0,
                        client_id = ''c1''\<rparr> \<noteq> SQLITE_LOCK_SHARED
   \<and> xLock \<lparr>key_prefix = ''db'', block_size = 4060, attained_log_level = 0, client_id = ''c1''\<rparr>
         (empty_table\<lparr>lock_items :=
            [''db'' \<mapsto> \<lparr>lk_level = Some 2, lk_owner = Some ''c2'', lk_count = Some 1\<rparr>]\<rparr>)
         1
     = (None,
        \<lparr>key_prefix = ''db'', block_size = 4060, attained_log_level = 1, client_id = ''c1''\<rparr>,
        empty_table\<lparr>lock_items :=
           [''db'' \<mapsto> \<lparr>lk_level = Some 2, lk_owner = Some ''c2'', lk_count = Some 2\<rparr>]\<rparr>)"
  using xLock_shared [of "\<lparr>key_prefix = ''db'', block_size = 4060, attained_log_level = 0,
                           client_id = ''c1''\<rparr>"
                         "empty_table\<lparr>lock_items :=
            [''db'' \<mapsto> \<lparr>lk_level = Some 2, lk_owner = Some ''c2'', lk_count = Some 1\<rparr>]\<rparr>"]
  by (simp add: lock_record_def empty_table_def)

lemma xLock_shared_busy_example:
  "xLock \<lparr>key_prefix = ''db'', block_size = 4060, attained_log_level = 0, client_id = ''c1''\<rparr>
         (empty_table\<lparr>lock_items :=
            [''db'' \<mapsto> \<lparr>lk_level = Some 3, lk_owner = Some ''c2'', lk_count = Some 1\<rparr>]\<rparr>)
         1
   = (Some BusyError,
      \<lparr>key_prefix = ''db'', block_size = 4060, attained_log_level = 0, client_id = ''c1''\<rparr>,
      empty_table\<lparr>lock_items :=
         [''db'' \<mapsto> \<lparr>lk_level = Some 3, lk_owner = Some ''c2'', lk_count = Some 1\<rparr>]\<rparr>)"
  by (simp add: lock_defs empty_table_def)

text \<open>
  C5: on a handle that has reached PENDING, \<open>xLock(EXCLUSIVE)\<close> makes the final upgrade
  as one conditional update setting \<open>level = EXCLUSIVE\<close> and \<open>owner = client_id\<close> under
  the condition \<open>owner = client_id AND count = 1\<close>; where the condition fails,
  \<open>BusyError\<close> is raised and the handle, with its attained level PENDING, and the table
  are unchanged.
\<close>

theorem xLock_exclusive_from_pending:
  assumes "attained_log_level h = SQLITE_LOCK_PENDING"
  shows "xLock h t SQLITE_LOCK_EXCLUSIVE =
     (if lk_owner (lock_record t (key_prefix h)) = Some (client_id h)
         \<and> lk_count (lock_record t (key_prefix h)) = Some 1
      then (None, h\<lparr>attained_log_level := SQLITE_LOCK_EXCLUSIVE\<rparr>,
            t\<lparr>lock_items := (lock_items t)(key_prefix h \<mapsto>
                 (lock_record t (key_prefix h))
                   \<lparr>lk_level := Some SQLITE_LOCK_EXCLUSIVE, lk_owner := Some (client_id h)\<rparr>)\<rparr>)
      else (Some BusyError, h, t))"
  using assms by (simp add: xLock_def update_item_lock_def set_level_owner_def busy_of_def Let_def)

theorem xLock_exclusive_from_pending_witness:
  "attained_log_level \<lparr>key_prefix = ''db'', block_size = 4060, attained_log_level = 3,
                        client_id = ''c1''\<rparr> = SQLITE_LOCK_PENDING
   \<and> xLock \<lparr>key_prefix = ''db'', block_size = 4060, attained_log_level = 3, client_id = ''c1''\<rparr>
         (empty_table\<lparr>lock_items :=
            [''db'' \<mapsto> \<lparr>lk_level = Some 3, lk_owner = Some ''c1'', lk_count = Some 2\<rparr>]\<rparr>)
         4
     = (Some BusyError,
        \<lparr>key_prefix = ''db'', block_size = 4060, attained_log_level = 3, client_id = ''c1''\<rparr>,
        empty_table\<lparr>lock_items :=
           [''db'' \<mapsto> \<lparr>lk_level = Some 3, lk_owner = Some ''c1'', lk_count = Some 2\<rparr>]\<rparr>)"
  using xLock_exclusive_from_pending
          [of "\<lparr>key_prefix = ''db'', block_size = 4060, attained_log_level = 3,
                 client_id = ''c1''\<rparr>"
              "empty_table\<lparr>lock_items :=
            [''db'' \<mapsto> \<lparr>lk_level = Some 3, lk_owner = Some ''c1'', lk_count = Some 2\<rparr>]\<rparr>"]
  by (simp add: lock_record_def empty_table_def)

text \<open>A handle below PENDING that takes the PENDING claim and then fails the upgrade is
  left in PENDING, with the claim recorded on the lock item.\<close>

lemma xLock_exclusive_busy_leaves_pending:
  assumes "attained_log_level h \<noteq> SQLITE_LOCK_PENDING"
    and "attained_log_level h \<noteq> SQLITE_LOCK_EXCLUSIVE"
    and "lk_owner (lock_record t (key_prefix h)) = None
         \<or> lk_owner (lock_record t (key_prefix h)) = Some (client_id h)"
    and "lk_count (lock_record t (key_prefix h)) \<noteq> Some 1"
  shows "xLock h t SQLITE_LOCK_EXCLUSIVE =
     (Some BusyError, h\<lparr>attained_log_level := SQLITE_LOCK_PENDING\<rparr>,
      t\<lparr>lock_items := (lock_items t)(key_prefix h \<mapsto>
           (lock_record t (key_prefix h))
             \<lparr>lk_level := Some SQLITE_LOCK_PENDING, lk_owner := Some (client_id h)\<rparr>)\<rparr>)"
  using assms
  by (auto simp add: xLock_def update_item_lock_def set_level_owner_def busy_of_def Let_def
        lock_record_def)

section \<open>Sort keys and partitions\<close>

lemma less_10_cases:
  fixes d :: nat
  assumes "d < 10"
  shows "d = 0 \<or> d = 1 \<or> d = 2 \<or> d = 3 \<or> d = 4 \<or> d = 5 \<or> d = 6 \<or> d = 7 \<or> d = 8 \<or> d = 9"
  using assms by arith

lemma digit_char_cases:
  fixes d :: nat
  assumes "d < 10"
  obtains "d = 0" | "d = 1" | "d = 2" | "d = 3" | "d = 4" | "d = 5" | "d = 6" | "d = 7"
    | "d = 8" | "d = 9"
  using less_10_cases[OF assms] by blast

lemma digit_val_digit_char: "d < 10 \<Longrightarrow> digit_val (digit_char d) = Some d"
  by (erule digit_char_cases) (simp_all add: digit_val_def digit_char_def)

lemma digit_char_not_minus: "d < 10 \<Longrightarrow> digit_char d \<noteq> CHR ''-''"
  by (erule digit_char_cases) (simp_all add: digit_char_def)

lemma parse_digits_snoc:
  "d < 10 \<Longrightarrow> parse_digits acc (xs @ [digit_char d]) =
     map_option (\<lambda>v. 10 * v + d) (parse_digits acc xs)"
  by (induction xs arbitrary: acc) (simp_all add: digit_val_digit_char split: option.splits)

lemma parse_digits_digits: "parse_digits 0 (digits n) = Some n"
proof (induction n rule: digits.induct)
  case (1 n)
  show ?case
  proof (cases "n < 10")
    case True
    then show ?thesis by (subst digits.simps) (simp add: digit_val_digit_char)
  next
    case False
    then have "parse_digits 0 (digits (n div 10)) = Some (n div 10)" using 1 by simp
    moreover have "n mod 10 < 10" by simp
    ultimately show ?thesis using False
      by (subst digits.simps) (simp add: parse_digits_snoc)
  qed
qed

lemma parse_digits_zeros: "parse_digits 0 (replicate k (CHR ''0'') @ s) = parse_digits 0 s"
  by (induction k) (simp_all add: digit_val_def)

lemma parse_digits_zfill: "parse_digits 0 (zfill w (digits n)) = Some n"
  by (simp add: zfill_def parse_digits_zeros parse_digits_digits)

lemma digits_not_Nil: "digits n \<noteq> []"
  by (subst digits.simps) simp

lemma hd_digits_not_minus: "hd (digits n) \<noteq> CHR ''-''"
proof (induction n rule: digits.induct)
  case (1 n)
  show ?case
  proof (cases "n < 10")
    case True
    then show ?thesis by (subst digits.simps) (simp add: digit_char_not_minus)
  next
    case False
    with 1 show ?thesis by (subst digits.simps) (simp add: digits_not_Nil)
  qed
qed

lemma zfill_not_Nil: "zfill w (digits n) \<noteq> []"
  by (simp add: zfill_def digits_not_Nil)

lemma hd_zfill_not_minus: "hd (zfill w (digits n)) \<noteq> CHR ''-''"
  by (cases "w - length (digits n)") (simp_all add: zfill_def hd_digits_not_minus digits_not_Nil)

lemma digit_val_plain:
  assumes "digit_val c = Some d"
  shows "\<not> py_space c" "c \<noteq> CHR ''_''" "c \<noteq> CHR ''-''" "c \<noteq> CHR ''+''"
  using assms by (auto simp: digit_val_def py_space_def split: if_splits)

lemma parse_digits_plain:
  "parse_digits acc s = Some n \<Longrightarrow> c \<in> set s \<Longrightarrow> \<exists>d. digit_val c = Some d"
  by (induction s arbitrary: acc) (auto split: option.splits)

lemma strip_plain:
  assumes "\<forall>c\<in>set s. \<not> py_space c"
  shows "strip s = s"
proof -
  have a: "dropWhile py_space xs = xs" if "\<forall>c\<in>set xs. \<not> py_space c" for xs
    using that by (cases xs) simp_all
  have "dropWhile py_space (rev s) = rev s" using assms by (intro a) simp
  then show ?thesis using a[OF assms] by (simp add: strip_def)
qed

lemma underscores_ok_plain:
  "CHR ''_'' \<notin> set s \<Longrightarrow> s \<noteq> [] \<or> p \<noteq> CHR ''_'' \<Longrightarrow> underscores_ok p s"
proof (induction s arbitrary: p)
  case Nil
  then show ?case by simp
next
  case (Cons c s)
  from Cons.prems(1) have "c \<noteq> CHR ''_''" "CHR ''_'' \<notin> set s" by auto
  with Cons.IH[of c] show ?case by simp
qed

lemma py_int_digits:
  assumes "parse_digits 0 s = Some n" and "s \<noteq> []"
  shows "py_int s = Inr (int n)" and "py_int (CHR ''-'' # s) = Inr (- int n)"
proof -
  have d: "\<exists>d. digit_val c = Some d" if "c \<in> set s" for c
    using assms(1) that by (rule parse_digits_plain)
  have sp: "\<forall>c\<in>set s. \<not> py_space c" and us: "CHR ''_'' \<notin> set s"
    and mi: "CHR ''-'' \<notin> set s" and pl: "CHR ''+'' \<notin> set s"
    using d digit_val_plain by blast+
  have f: "filter (\<lambda>c. c \<noteq> CHR ''_'') s = s" using us by (induction s) auto
  have u: "underscores_ok (CHR ''_'') s" using us assms(2) by (simp add: underscores_ok_plain)
  have h: "hd s \<noteq> CHR ''-''" "hd s \<noteq> CHR ''+''" using mi pl assms(2) by (cases s; auto)+
  have s1: "strip s = s" using sp by (rule strip_plain)
  have "\<not> py_space (CHR ''-'')" by (simp add: py_space_def)
  with sp have "\<forall>c\<in>set (CHR ''-'' # s). \<not> py_space c" by simp
  then have s2: "strip (CHR ''-'' # s) = CHR ''-'' # s" by (rule strip_plain)
  show "py_int s = Inr (int n)"
    using assms f u h by (simp add: py_int_def s1)
  show "py_int (CHR ''-'' # s) = Inr (- int n)"
    using assms f u by (simp add: py_int_def s2)
qed

lemma py_int_fmt010: "py_int (fmt010 n) = Inr n"
proof (cases "n < 0")
  case True
  then show ?thesis
    using py_int_digits(2)[OF parse_digits_zfill zfill_not_Nil, of 9 "nat (- n)"]
    by (simp add: fmt010_def)
next
  case False
  then show ?thesis
    using py_int_digits(1)[OF parse_digits_zfill zfill_not_Nil, of 10 "nat n"]
    by (simp add: fmt010_def)
qed

lemma fmt010_inj: "fmt010 a = fmt010 b \<longleftrightarrow> a = b"
proof
  assume "fmt010 a = fmt010 b"
  then have "py_int (fmt010 a) = py_int (fmt010 b)" by simp
  then show "a = b" by (simp add: py_int_fmt010)
qed simp

subsection \<open>Partitions\<close>

lemma map_of_part_put:
  "map_of (part_put k v xs) k' = (if k' = k then Some v else map_of xs k')"
  by (induction xs) auto

lemma map_of_part_delete:
  "map_of (part_delete k xs) k' = (if k' = k then None else map_of xs k')"
  by (induction xs) (auto simp: part_delete_def)



lemma sorted_part_delete:
  "sorted_wrt (<) (map fst xs) \<Longrightarrow> sorted_wrt (<) (map fst (part_delete k xs))"
  unfolding part_delete_def by (induction xs) auto



lemma sum_part_delete:
  fixes f :: "'v \<Rightarrow> int"
  assumes "sorted_wrt (<) (map fst xs)"
  shows "sum_list (map (\<lambda>kv. f (snd kv)) (part_delete k xs)) =
         sum_list (map (\<lambda>kv. f (snd kv)) xs)
           - (case map_of xs k of None \<Rightarrow> 0 | Some old \<Rightarrow> f old)"
  using assms
proof (induction xs)
  case Nil
  then show ?case by (simp add: part_delete_def)
next
  case (Cons a xs)
  obtain k' v' where a: "a = (k', v')" by (cases a)
  from Cons.prems have s: "sorted_wrt (<) (map fst xs)" and l: "\<forall>x\<in>set xs. k' < fst x"
    by (auto simp: a)
  show ?case
  proof (cases "k = k'")
    case True
    then have "\<forall>x\<in>set xs. fst x \<noteq> k" using l by auto
    then have "filter (\<lambda>kv. fst kv \<noteq> k) xs = xs" by (simp add: filter_id_conv)
    with True show ?thesis by (simp add: a part_delete_def)
  next
    case False
    with Cons.IH[OF s] show ?thesis by (simp add: a part_delete_def)
  qed
qed

section \<open>Reading and writing blocks\<close>

subsection \<open>Slices\<close>

lemma py_slice_nonneg:
  "0 \<le> i \<Longrightarrow> i \<le> j \<Longrightarrow> py_slice xs i j = take (nat j - nat i) (drop (nat i) xs)"
  by (auto simp: py_slice_def py_index_def min_def)


lemma py_slice_append:
  assumes "0 \<le> i" "i \<le> j" "j \<le> k"
  shows "py_slice xs i j @ py_slice xs j k = py_slice xs i k"
proof -
  have "take (nat j - nat i) (drop (nat i) xs) @ take (nat k - nat j) (drop (nat j) xs)
        = take (nat k - nat i) (drop (nat i) xs)"
  proof -
    have "nat k - nat i = (nat j - nat i) + (nat k - nat j)" using assms by linarith
    moreover have "drop (nat j) xs = drop (nat j - nat i) (drop (nat i) xs)"
      using assms by simp
    ultimately show ?thesis by (simp add: take_add)
  qed
  with assms show ?thesis by (simp add: py_slice_nonneg)
qed

lemma length_py_slice_le: "0 \<le> i \<Longrightarrow> i \<le> j \<Longrightarrow> int (length (py_slice xs i j)) \<le> j - i"
  by (simp add: py_slice_nonneg)

lemma length_py_slice_in:
  "0 \<le> i \<Longrightarrow> i \<le> j \<Longrightarrow> j \<le> int (length xs) \<Longrightarrow> int (length (py_slice xs i j)) = j - i"
  by (simp add: py_slice_nonneg)

subsection \<open>Block store laws\<close>

lemma block_partition_set [simp]:
  "block_partition h (set_block_partition h t p) = p"
  by (simp add: block_partition_def set_block_partition_def)

lemma block_get_put:
  "block_get_bytes h (snd (block_put_bytes h t b bs)) b' =
     (if b' = b then bs else block_get_bytes h t b')"
  by (simp add: block_get_bytes_def block_put_bytes_def Let_def map_of_part_put fmt010_inj)

text \<open>The request of \<open>_update_total_size\<close> is either rejected, and then nothing changes, or
  it changes the size counter of the file and no block item.\<close>

lemma update_total_size_cases:
  obtains (rejected) "update_total_size h t d = Inl ValidationException"
  | (accepted) t' where "update_total_size h t d = Inr t'"
      and "block_items t' = block_items t"
      and "get_total_size h t' = get_total_size h t + d"
  by (cases "reserved_word ''size''")
    (simp_all add: update_total_size_def get_total_size_def split: option.splits)

lemma same_blocks:
  assumes "block_items t' = block_items t"
  shows "block_partition h t' = block_partition h t"
    and "block_get_bytes h t' b = block_get_bytes h t b"
    and "read_blocks h t' ts = read_blocks h t ts"
    and "stored_bytes h t' = stored_bytes h t"
    and "wf_store h t' = wf_store h t"
    and "file_content h t' = file_content h t"
  by (simp_all add: block_partition_def block_get_bytes_def read_blocks_def stored_bytes_def
        wf_store_def file_content_def serialize_iter_def assms)

text \<open>The end of \<open>xWrite\<close> and \<open>xTruncate\<close>: the exception of the last request, if any, and
  the table it leaves.\<close>

lemma update_total_outcome:
  assumes "r = (case update_total_size h t d of Inl e \<Rightarrow> (Some e, t) | Inr t' \<Rightarrow> (None, t'))"
  shows "fst r = None \<or> fst r = Some ValidationException"
    and "block_items (snd r) = block_items t"
    and "d = 0 \<Longrightarrow> get_total_size h (snd r) = get_total_size h t"
  using assms by (cases h t d rule: update_total_size_cases; simp)+

lemma write_blocks_Cons:
  "write_blocks h data ((b, s, c) # ts) doff (d, t) =
     write_blocks h data ts (doff + c)
       (d + fst (block_put_bytes h t b (data_to_write h t data doff (b, s, c))),
        snd (block_put_bytes h t b (data_to_write h t data doff (b, s, c))))"
  by (simp add: case_prod_beta)

lemma write_blocks_frame:
  "b \<notin> fst ` set ts \<Longrightarrow>
   block_get_bytes h (snd (write_blocks h data ts doff (d, t))) b = block_get_bytes h t b"
proof (induction ts arbitrary: doff d t)
  case Nil
  show ?case by simp
next
  case (Cons x ts)
  obtain b' s c where x: "x = (b', s, c)" by (cases x)
  from Cons.prems have "b \<noteq> b'" "b \<notin> fst ` set ts" by (auto simp: x)
  with Cons.IH show ?case
    unfolding x write_blocks_Cons by (simp add: block_get_put)
qed

lemma data_to_write_slice:
  assumes "0 \<le> s" "0 \<le> c" "0 \<le> doff" "doff + c \<le> int (length data)"
  shows "py_slice (data_to_write h t data doff (b, s, c)) s (s + c) = py_slice data doff (doff + c)"
proof -
  let ?chunk = "py_slice data doff (doff + c)"
  have len: "length ?chunk = nat c" using assms by (simp add: py_slice_nonneg)
  let ?orig = "block_get_bytes h t b @ replicate (nat (max (s - int (length (block_get_bytes h t b))) 0)) 0"
  have lo: "nat s \<le> length ?orig" using assms by (simp add: max_def) linarith
  have pre: "length (py_slice ?orig 0 s) = nat s"
    using assms lo by (simp add: py_slice_nonneg)
  show ?thesis
  proof (cases "s \<noteq> 0 \<or> int (length ?chunk) \<noteq> block_size h")
    case True
    then have d: "data_to_write h t data doff (b, s, c)
              = py_slice ?orig 0 s @ ?chunk @ py_slice_from ?orig (s + c)"
      by (simp add: data_to_write_def Let_def)
    have "py_slice (py_slice ?orig 0 s @ ?chunk @ py_slice_from ?orig (s + c)) s (s + c) = ?chunk"
      using assms pre len by (subst py_slice_nonneg) (simp_all add: nat_add_distrib)
    with d show ?thesis by simp
  next
    case False
    then have d: "data_to_write h t data doff (b, s, c) = ?chunk" and s0: "s = 0"
      by (simp_all add: data_to_write_def Let_def)
    have "py_slice ?chunk 0 (0 + c) = ?chunk"
      using assms len by (subst py_slice_nonneg) simp_all
    with d s0 show ?thesis by simp
  qed
qed

lemma write_blocks_read_back:
  assumes "sorted_wrt (<) (map fst ts)"
    and "\<forall>(b, s, c) \<in> set ts. 0 \<le> s \<and> 0 \<le> c"
    and "0 \<le> doff"
    and "doff + sum_list (map (\<lambda>(b, s, c). c) ts) \<le> int (length data)"
  shows "read_blocks h (snd (write_blocks h data ts doff (d, t))) ts
         = py_slice data doff (doff + sum_list (map (\<lambda>(b, s, c). c) ts))"
  using assms
proof (induction ts arbitrary: doff d t)
  case Nil
  then show ?case by (simp add: read_blocks_def py_slice_nonneg)
next
  case (Cons x ts)
  obtain b s c where x: "x = (b, s, c)" by (cases x)
  let ?new = "data_to_write h t data doff (b, s, c)"
  let ?t' = "snd (block_put_bytes h t b ?new)"
  let ?d' = "d + fst (block_put_bytes h t b ?new)"
  let ?fin = "snd (write_blocks h data ts (doff + c) (?d', ?t'))"
  let ?sum = "sum_list (map (\<lambda>(b, s, c). c) ts)"
  from Cons.prems(2) have sc: "0 \<le> s" "0 \<le> c" and rest: "\<forall>(b, s, c) \<in> set ts. 0 \<le> s \<and> 0 \<le> c"
    by (auto simp: x)
  have sumpos: "0 \<le> ?sum" using rest by (induction ts) auto
  from Cons.prems(1) have srt: "sorted_wrt (<) (map fst ts)" and nb: "b \<notin> fst ` set ts"
    by (auto simp: x)
  from Cons.prems(4) have bound: "doff + c + ?sum \<le> int (length data)" by (simp add: x)
  have "block_get_bytes h ?fin b = ?new"
    using write_blocks_frame[OF nb] by (simp add: block_get_put)
  then have first: "py_slice (block_get_bytes h ?fin b) s (s + c) = py_slice data doff (doff + c)"
    using data_to_write_slice[of s c doff data h t b] sc Cons.prems(3) bound sumpos by simp
  have IH: "read_blocks h ?fin ts = py_slice data (doff + c) (doff + c + ?sum)"
    using Cons.IH[OF srt rest, of "doff + c" ?d' ?t'] Cons.prems(3) sc bound by simp
  have "read_blocks h ?fin (x # ts)
        = py_slice data doff (doff + c) @ py_slice data (doff + c) (doff + c + ?sum)"
    using first IH by (simp add: read_blocks_def x)
  also have "\<dots> = py_slice data doff (doff + c + ?sum)"
    using Cons.prems(3) sc sumpos by (intro py_slice_append) simp_all
  finally show ?case
    unfolding x write_blocks_Cons by (simp add: add.assoc)
qed

lemma blocks_bounded_get:
  assumes "blocks_bounded h t" "0 \<le> block_size h"
  shows "int (length (block_get_bytes h t b)) \<le> block_size h"
proof (cases "map_of (block_partition h t) (fmt010 b)")
  case None
  with assms show ?thesis by (simp add: block_get_bytes_def)
next
  case (Some it)
  then have "(fmt010 b, it) \<in> set (block_partition h t)" by (rule map_of_SomeD)
  with assms(1) have "int (length (item_data it)) \<le> block_size h"
    by (auto simp: blocks_bounded_def list_all_iff)
  with Some show ?thesis by (simp add: block_get_bytes_def)
qed

lemma set_part_put_subset: "set (part_put k v xs) \<subseteq> insert (k, v) (set xs)"
  by (induction xs) (auto split: if_splits)

lemma blocks_bounded_put:
  assumes "blocks_bounded h t" "int (length bs) \<le> block_size h"
  shows "blocks_bounded h (snd (block_put_bytes h t b bs))"
  using assms set_part_put_subset[of "fmt010 b" "\<lparr>item_data = bs, item_size = int (length bs)\<rparr>" "block_partition h t"]
  by (auto simp: blocks_bounded_def list_all_iff block_put_bytes_def Let_def)

lemma pad_blocks_Cons:
  "pad_blocks h (b # rest) (d, t) =
     (if int (length (block_get_bytes h t b)) = block_size h then Inr (d, t)
      else if block_size h - int (length (block_get_bytes h t b)) < 0 then Inl (ValueError, t)
      else pad_blocks h rest
             (d + fst (block_put_bytes h t b
                    (block_get_bytes h t b
                       @ replicate (nat (block_size h - int (length (block_get_bytes h t b)))) 0)),
              snd (block_put_bytes h t b
                    (block_get_bytes h t b
                       @ replicate (nat (block_size h - int (length (block_get_bytes h t b)))) 0))))"
  by (simp add: Let_def zero_bytes_def case_prod_beta)

declare pad_blocks.simps(2) [simp del]

lemma pad_blocks_total:
  assumes "blocks_bounded h t" "0 \<le> block_size h"
  shows "\<exists>d' t'. pad_blocks h bs (d, t) = Inr (d', t') \<and> blocks_bounded h t'"
  using assms(1)
proof (induction bs arbitrary: d t)
  case Nil
  then show ?case by simp
next
  case (Cons b rest)
  let ?orig = "block_get_bytes h t b"
  have le: "int (length ?orig) \<le> block_size h"
    using blocks_bounded_get[OF Cons.prems assms(2)] .
  show ?case
  proof (cases "int (length ?orig) = block_size h")
    case True
    with Cons.prems show ?thesis by (simp add: pad_blocks_Cons)
  next
    case False
    let ?new = "?orig @ replicate (nat (block_size h - int (length ?orig))) 0"
    have "int (length ?new) \<le> block_size h" using le by simp
    then have "blocks_bounded h (snd (block_put_bytes h t b ?new))"
      using Cons.prems by (rule blocks_bounded_put[rotated])
    from Cons.IH[OF this] False le show ?thesis
      by (simp add: pad_blocks_Cons)
  qed
qed

lemma sum_list_int_mono_strict:
  fixes f g :: "'a \<Rightarrow> int"
  assumes "\<forall>x\<in>set xs. f x \<le> g x" "\<exists>x\<in>set xs. f x < g x"
  shows "sum_list (map f xs) < sum_list (map g xs)"
  using assms
proof (induction xs)
  case Nil
  then show ?case by simp
next
  case (Cons a xs)
  have le: "sum_list (map f xs) \<le> sum_list (map g xs)"
    using Cons.prems(1) by (intro sum_list_mono) simp
  show ?case
  proof (cases "f a < g a")
    case True
    with le show ?thesis by simp
  next
    case False
    with Cons.prems have "\<exists>x\<in>set xs. f x < g x" "f a \<le> g a" by auto
    with Cons.IH Cons.prems(1) show ?thesis by simp
  qed
qed

lemma int_length_concat:
  "int (length (concat (map f xs))) = sum_list (map (\<lambda>x. int (length (f x))) xs)"
  by (induction xs) simp_all

lemma slice_block:
  assumes "0 \<le> s" "0 \<le> c"
  shows "py_slice (block_get_bytes h t b) s (s + c) =
         (case map_of (block_partition h t) (fmt010 b) of
            None \<Rightarrow> []
          | Some it \<Rightarrow> take (nat c) (drop (nat s) (item_data it)))"
proof -
  have n: "nat (s + c) - nat s = nat c" using assms by linarith
  have "py_slice (block_get_bytes h t b) s (s + c)
        = take (nat c) (drop (nat s) (block_get_bytes h t b))"
    using assms by (simp add: py_slice_nonneg n)
  then show ?thesis
    by (cases "map_of (block_partition h t) (fmt010 b)") (simp_all add: block_get_bytes_def)
qed

lemma length_slice_block:
  assumes "0 \<le> s" "0 \<le> c"
  shows "int (length (py_slice xs s (s + c))) \<le> c"
    and "int (length xs) < s + c \<Longrightarrow> 1 \<le> c \<Longrightarrow> int (length (py_slice xs s (s + c))) < c"
proof -
  have n: "nat (s + c) - nat s = nat c" using assms by linarith
  have e: "py_slice xs s (s + c) = take (nat c) (drop (nat s) xs)"
    using assms by (simp add: py_slice_nonneg n)
  show "int (length (py_slice xs s (s + c))) \<le> c" using assms by (simp add: e)
  show "int (length (py_slice xs s (s + c))) < c" if "int (length xs) < s + c" "1 \<le> c"
    using that assms unfolding e by simp
qed

lemma pad_lock_page_total:
  assumes "blocks_bounded h t" "1 \<le> block_size h"
  shows "\<exists>d' t'. pad_lock_page h t data offset = Inr (d', t') \<and> blocks_bounded h t'"
proof (cases "offset = lock_page_offset + int (length data)")
  case True
  have "0 \<le> block_size h" using assms(2) by simp
  from pad_blocks_total[OF assms(1) this] True assms(2) show ?thesis
    by (simp add: pad_lock_page_def Let_def)
next
  case False
  with assms(1) show ?thesis by (simp add: pad_lock_page_def Let_def)
qed

lemma xWrite_eq:
  assumes "pad_lock_page h t data offset = Inr (d1, t1)" and "1 \<le> block_size h"
  shows "xWrite h t data offset =
     Some (case update_total_size h
        (snd (write_blocks h data (blocks_list (block_size h) offset (int (length data))) 0 (d1, t1)))
        (fst (write_blocks h data (blocks_list (block_size h) offset (int (length data))) 0 (d1, t1)))
           of Inl e \<Rightarrow>
                (Some e, snd (write_blocks h data
                   (blocks_list (block_size h) offset (int (length data))) 0 (d1, t1)))
            | Inr t3 \<Rightarrow> (None, t3))"
  unfolding xWrite_def using assms(1) blocks_eq_list[OF assms(2)]
  by (simp add: case_prod_beta split: sum.splits)

lemma xRead_eq:
  assumes "1 \<le> block_size h"
  shows "xRead h t amount offset =
           Some (Inr (read_blocks h t (blocks_list (block_size h) offset amount)))"
  unfolding xRead_def read_blocks_def using blocks_eq_list[OF assms] by simp

text \<open>
  C2 (amended): on a handle with a block size of at least one and a store none of whose
  blocks is longer than the block size, \<open>xWrite(data, offset)\<close> at an offset \<open>\<ge> 0\<close> comes
  to an end, no request before its last one (the update of the size counter, made after
  all the blocks are written) raises, and \<open>xRead(len(data), offset)\<close> on the store the
  call leaves returns exactly \<open>data\<close>.
\<close>

theorem xWrite_then_xRead:
  assumes "1 \<le> block_size h" and "0 \<le> offset" and "blocks_bounded h t"
  shows "\<exists>e t'. xWrite h t data offset = Some (e, t')
           \<and> (e = None \<or> e = Some ValidationException)
           \<and> xRead h t' (int (length data)) offset = Some (Inr data)"
proof -
  let ?ts = "blocks_list (block_size h) offset (int (length data))"
  obtain d1 t1 where pad: "pad_lock_page h t data offset = Inr (d1, t1)"
    using pad_lock_page_total[OF assms(3) assms(1)] by blast
  let ?w = "write_blocks h data ?ts 0 (d1, t1)"
  let ?r = "case update_total_size h (snd ?w) (fst ?w) of
              Inl e \<Rightarrow> (Some e, snd ?w) | Inr t3 \<Rightarrow> (None, t3)"
  have xw: "xWrite h t data offset = Some ?r"
    using pad assms(1) by (rule xWrite_eq)
  have tr: "\<forall>(b, s, c) \<in> set ?ts. 0 \<le> s \<and> 0 \<le> c"
    using blocks_list_triple by fastforce
  have sum: "sum_list (map (\<lambda>(b, s, c). c) ?ts) = int (length data)"
    using assms(1) by (simp add: blocks_list_sum)
  have "read_blocks h (snd ?w) ?ts = py_slice data 0 (0 + sum_list (map (\<lambda>(b, s, c). c) ?ts))"
    using blocks_list_sorted tr by (rule write_blocks_read_back) (simp_all add: sum)
  then have rb: "read_blocks h (snd ?w) ?ts = data"
    by (simp add: sum py_slice_nonneg)
  have e: "fst ?r = None \<or> fst ?r = Some ValidationException"
    and b: "block_items (snd ?r) = block_items (snd ?w)"
    by (rule update_total_outcome[OF refl])+
  have "xRead h (snd ?r) (int (length data)) offset = Some (Inr data)"
    using rb by (simp add: xRead_eq[OF assms(1)] same_blocks(3)[OF b])
  with xw e show ?thesis by (intro exI[of _ "fst ?r"] exI[of _ "snd ?r"]) simp
qed

text \<open>
  C9: for a block size of at least one, \<open>amount \<ge> 0\<close> and \<open>offset \<ge> 0\<close>, \<open>xRead\<close> returns
  without error the concatenation, over the triples of the range, of the stored block's
  bytes at \<open>[start, start + consume)\<close>, nothing for a missing block and the shorter
  slice for a short one; the result has at most \<open>amount\<close> bytes, and fewer when some
  block of the range ends before \<open>start + consume\<close>.
\<close>

theorem xRead_concat:
  assumes "1 \<le> block_size h" and "0 \<le> amount" and "0 \<le> offset"
  shows "\<exists>ts r. blocks (block_size h) offset amount = Some (Inr ts)
           \<and> xRead h t amount offset = Some (Inr r)
           \<and> r = concat (map (\<lambda>(block, start, consume).
                     case map_of (block_partition h t) (fmt010 block) of
                       None \<Rightarrow> []
                     | Some it \<Rightarrow> take (nat consume) (drop (nat start) (item_data it))) ts)
           \<and> int (length r) \<le> amount
           \<and> ((\<exists>(block, start, consume) \<in> set ts.
                  int (length (block_get_bytes h t block)) < start + consume)
                \<longrightarrow> int (length r) < amount)"
proof -
  let ?ts = "blocks_list (block_size h) offset amount"
  let ?f = "\<lambda>(block, start, consume). py_slice (block_get_bytes h t block) start (start + consume)"
  let ?g = "\<lambda>(block, start, consume).
              case map_of (block_partition h t) (fmt010 block) of
                None \<Rightarrow> []
              | Some it \<Rightarrow> take (nat consume) (drop (nat start) (item_data it))"
  let ?r = "concat (map ?f ?ts)"
  have b: "blocks (block_size h) offset amount = Some (Inr ?ts)"
    using assms(1) by (rule blocks_eq_list)
  then have x: "xRead h t amount offset = Some (Inr ?r)" by (simp add: xRead_def)
  have tr: "1 \<le> c \<and> 0 \<le> s" if "(b, s, c) \<in> set ?ts" for b s c
    using blocks_list_triple[OF that] by simp
  have fg: "?f x = ?g x" if "x \<in> set ?ts" for x
  proof -
    obtain b s c where x: "x = (b, s, c)" by (cases x)
    with that tr have "1 \<le> c" "0 \<le> s" by auto
    then show ?thesis unfolding x by (simp add: slice_block)
  qed
  have m: "map ?f ?ts = map ?g ?ts" by (rule map_cong[OF refl fg])
  have eq: "?r = concat (map ?g ?ts)" by (rule arg_cong[OF m])
  have sum: "sum_list (map (\<lambda>(b, s, c). c) ?ts) = amount"
    using assms by (simp add: blocks_list_sum)
  have len: "int (length ?r) = sum_list (map (\<lambda>x. int (length (?f x))) ?ts)"
    by (rule int_length_concat)
  have le1: "int (length (?f x)) \<le> (\<lambda>(b, s, c). c) x" if "x \<in> set ?ts" for x
  proof -
    obtain b s c where x: "x = (b, s, c)" by (cases x)
    with that tr have "1 \<le> c" "0 \<le> s" by auto
    then show ?thesis unfolding x by (simp add: length_slice_block(1))
  qed
  have "int (length ?r) \<le> sum_list (map (\<lambda>(b, s, c). c) ?ts)"
    unfolding len by (intro sum_list_mono le1)
  then have le: "int (length ?r) \<le> amount" by (simp only: sum)
  have strict: "int (length ?r) < amount"
    if "\<exists>(block, start, consume) \<in> set ?ts.
          int (length (block_get_bytes h t block)) < start + consume"
  proof -
    from that obtain b s c where m: "(b, s, c) \<in> set ?ts"
      and short: "int (length (block_get_bytes h t b)) < s + c" by auto
    from tr[OF m] have "1 \<le> c" "0 \<le> s" by auto
    with short have "int (length (?f (b, s, c))) < c" by (simp add: length_slice_block(2))
    then have "int (length (?f (b, s, c))) < (\<lambda>(b, s, c). c) (b, s, c)" by simp
    with m have ex: "\<exists>x\<in>set ?ts. int (length (?f x)) < (\<lambda>(b, s, c). c) x" by (rule rev_bexI)
    have all: "\<forall>x\<in>set ?ts. int (length (?f x)) \<le> (\<lambda>(b, s, c). c) x" using le1 by blast
    have "int (length ?r) < sum_list (map (\<lambda>(b, s, c). c) ?ts)"
      unfolding len using all ex by (rule sum_list_int_mono_strict)
    then show ?thesis by (simp only: sum)
  qed
  show ?thesis
  proof (intro exI conjI impI)
    show "blocks (block_size h) offset amount = Some (Inr ?ts)" by (rule b)
    show "xRead h t amount offset = Some (Inr ?r)" by (rule x)
    show "?r = concat (map ?g ?ts)" by (rule eq)
    show "int (length ?r) \<le> amount" by (rule le)
    assume "\<exists>(block, start, consume) \<in> set ?ts.
              int (length (block_get_bytes h t block)) < start + consume"
    then show "int (length ?r) < amount" by (rule strict)
  qed
qed

lemmas block_eval = xWrite_def xRead_def pad_lock_page_def blocks.simps block_put_bytes_def
  block_get_bytes_def block_partition_def set_block_partition_def update_total_size_def
  empty_table_def py_slice_def py_slice_from_def py_index_def fmt010_def digits.simps zfill_def
  digit_char_def lock_page_offset_def data_to_write_def Let_def

theorem xWrite_then_xRead_witness:
  "1 \<le> block_size \<lparr>key_prefix = ''db'', block_size = 4, attained_log_level = 0, client_id = ''c1''\<rparr>
   \<and> (0::int) \<le> 2
   \<and> blocks_bounded \<lparr>key_prefix = ''db'', block_size = 4, attained_log_level = 0,
                       client_id = ''c1''\<rparr> empty_table
   \<and> (\<exists>e t'. xWrite \<lparr>key_prefix = ''db'', block_size = 4, attained_log_level = 0,
                     client_id = ''c1''\<rparr> empty_table [1, 2, 3, 4, 5, 6] 2 = Some (e, t')
          \<and> (e = None \<or> e = Some ValidationException)
          \<and> xRead \<lparr>key_prefix = ''db'', block_size = 4, attained_log_level = 0,
                    client_id = ''c1''\<rparr> t' 6 2 = Some (Inr [1, 2, 3, 4, 5, 6]))"
  using xWrite_then_xRead [of "\<lparr>key_prefix = ''db'', block_size = 4, attained_log_level = 0,
                                 client_id = ''c1''\<rparr>" 2 empty_table "[1, 2, 3, 4, 5, 6]"]
  by (simp add: blocks_bounded_def block_partition_def empty_table_def)

lemma replicate_9: "replicate 9 x = [x, x, x, x, x, x, x, x, x]"
  by (simp add: numeral_eq_Suc)

lemma fmt010_0: "fmt010 0 = ''0000000000''"
  and fmt010_1: "fmt010 1 = ''0000000001''"
  and fmt010_2: "fmt010 2 = ''0000000002''"
  by (simp_all add: fmt010_def digits.simps zfill_def digit_char_def replicate_9)

lemma fmt010_lock_page_blocks:
  "fmt010 268435456 = ''0268435456''" "fmt010 268435457 = ''0268435457''"
  by (simp_all add: fmt010_def digits.simps zfill_def digit_char_def)

lemma example_handle_simps:
  "block_size example_handle = 4" "key_prefix example_handle = ''db''"
  by (simp_all add: example_handle_def)

lemma example_blocks:
  "block_get_bytes example_handle example_table 0 = [1, 2, 3, 4]"
  "block_get_bytes example_handle example_table 1 = [5, 6]"
  by (simp_all add: example_handle_def example_table_def block_get_bytes_def block_partition_def
        fmt010_0 fmt010_1)

lemma example_xRead: "xRead example_handle example_table 6 2 = Some (Inr [3, 4, 5, 6])"
  by (simp add: xRead_def example_handle_simps blocks.simps example_blocks py_slice_def py_index_def)

theorem xRead_concat_witness:
  "1 \<le> block_size example_handle \<and> (0::int) \<le> 6 \<and> (0::int) \<le> 2
   \<and> xRead example_handle example_table 6 2 = Some (Inr [3, 4, 5, 6])"
  using xRead_concat [of example_handle 6 2 example_table] example_xRead
  by (simp add: example_handle_simps)

subsection \<open>A store with a block longer than the block size\<close>

text \<open>
  The claim C2 speaks of every starting store. A store may hold a block longer than the
  block size of the handle, written through a handle with a larger block size: here the
  block holding the lock-page offset has six bytes and the block size is four. The write
  just after the lock page then asks for \<open>bytes(4 - 6)\<close>: \<open>xWrite\<close> raises \<open>ValueError\<close> before
  it writes anything, and the read that follows returns no byte of the data.
\<close>

theorem xWrite_long_block_counterexample:
  "xWrite example_handle long_block_table [1, 2, 3, 4] 1073741828
     = Some (Some ValueError, long_block_table)
   \<and> xRead example_handle long_block_table 4 1073741828 = Some (Inr [])"
proof -
  have g: "block_get_bytes example_handle long_block_table 268435456 = [7, 7, 7, 7, 7, 7]"
    "block_get_bytes example_handle long_block_table 268435457 = []"
    by (simp_all add: block_get_bytes_def block_partition_def long_block_table_def
          example_handle_def fmt010_lock_page_blocks)
  have "pad_lock_page example_handle long_block_table [1, 2, 3, 4] 1073741828
          = Inl (ValueError, long_block_table)"
    by (simp add: pad_lock_page_def lock_page_offset_def example_handle_simps py_range_down_def
          pad_blocks_Cons g Let_def)
  then have w: "xWrite example_handle long_block_table [1, 2, 3, 4] 1073741828
                  = Some (Some ValueError, long_block_table)"
    by (simp add: xWrite_def)
  have r: "xRead example_handle long_block_table 4 1073741828 = Some (Inr [])"
    by (simp add: xRead_def example_handle_simps blocks.simps g py_slice_def py_index_def)
  from w r show ?thesis by simp
qed

section \<open>The size counter and the well-formed store\<close>


lemma wf_storeD:
  assumes "wf_store h t" "(k, it) \<in> set (block_partition h t)"
  shows "\<exists>n\<ge>0. k = fmt010 n" "item_size it = int (length (item_data it))"
    "int (length (item_data it)) \<le> block_size h" "1 \<le> int (length (item_data it))"
proof -
  from assms have "(\<exists>n\<ge>0. fst (k, it) = fmt010 n)
      \<and> item_size (snd (k, it)) = int (length (item_data (snd (k, it))))
      \<and> 1 \<le> int (length (item_data (snd (k, it))))
      \<and> int (length (item_data (snd (k, it)))) \<le> block_size h"
    unfolding wf_store_def list_all_iff by blast
  then show "\<exists>n\<ge>0. k = fmt010 n" "item_size it = int (length (item_data it))"
    "int (length (item_data it)) \<le> block_size h" "1 \<le> int (length (item_data it))"
    by simp_all
qed

lemma wf_store_sorted: "wf_store h t \<Longrightarrow> sorted_wrt (<) (map fst (block_partition h t))"
  by (simp add: wf_store_def)


lemma get_total_set_partition [simp]:
  "get_total_size h (set_block_partition h t p) = get_total_size h t"
  by (simp add: get_total_size_def set_block_partition_def)


lemma get_total_put [simp]:
  "get_total_size h (snd (block_put_bytes h t b bs)) = get_total_size h t"
  by (simp add: block_put_bytes_def Let_def)







section \<open>Padding before the lock page\<close>




lemma length_padded:
  "int (length (block_get_bytes h t b)) \<le> block_size h \<Longrightarrow> int (length (padded h t b)) = block_size h"
  by (simp add: padded_def)

















section \<open>Truncation\<close>

subsection \<open>Items at a known place of the partition\<close>

lemma sorted_app_keys:
  assumes "sorted_wrt (<) (map fst (pre @ (k, v) # rest))"
  shows "\<forall>x\<in>set pre. fst x < k" "\<forall>x\<in>set rest. k < fst x"
  using assms by (auto simp: sorted_wrt_append)

lemma map_of_at:
  fixes k :: string
  assumes "\<forall>x\<in>set pre. fst x < k"
  shows "map_of (pre @ (k, v) # rest) k = Some v"
  using assms by (induction pre) auto

lemma part_put_at:
  fixes k :: string
  assumes "\<forall>x\<in>set pre. fst x < k"
  shows "part_put k v' (pre @ (k, v) # rest) = pre @ (k, v') # rest"
  using assms by (induction pre) auto

lemma part_delete_at:
  fixes k :: string
  assumes "\<forall>x\<in>set pre. fst x < k" "\<forall>x\<in>set rest. k < fst x"
  shows "part_delete k (pre @ (k, v) # rest) = pre @ rest"
proof -
  have "filter (\<lambda>kv. fst kv \<noteq> k) pre = pre" using assms(1) by (auto simp: filter_id_conv)
  moreover have "filter (\<lambda>kv. fst kv \<noteq> k) rest = rest" using assms(2) by (auto simp: filter_id_conv)
  ultimately show ?thesis by (simp add: part_delete_def)
qed

lemma set_block_partition_twice [simp]:
  "set_block_partition h (set_block_partition h t p) q = set_block_partition h t q"
  by (simp add: set_block_partition_def)

lemma set_block_partition_same [simp]:
  "set_block_partition h t (block_partition h t) = t"
  by (simp add: set_block_partition_def block_partition_def)

subsection \<open>The loop of the truncation\<close>


lemma truncate_items_Cons:
  "truncate_items h newsize ((k, obj) # rest) tot (d, t) =
     (if max (item_size obj - (tot + item_size obj) + newsize) 0 = 0 then
        (case py_int k of
           Inl e \<Rightarrow> Inl (e, t)
         | Inr block \<Rightarrow>
             (case block_delete h t block of
                Inl e \<Rightarrow> Inl (e, t)
              | Inr r \<Rightarrow> truncate_items h newsize rest (tot + item_size obj) (d + fst r, snd r)))
      else if max (item_size obj - (tot + item_size obj) + newsize) 0 < item_size obj then
        (case py_int k of
           Inl e \<Rightarrow> Inl (e, t)
         | Inr block \<Rightarrow>
             truncate_items h newsize rest (tot + item_size obj)
               (d + fst (block_put_bytes h t block
                     (py_slice (block_get_bytes h t block) 0
                        (max (item_size obj - (tot + item_size obj) + newsize) 0))),
                snd (block_put_bytes h t block
                     (py_slice (block_get_bytes h t block) 0
                        (max (item_size obj - (tot + item_size obj) + newsize) 0)))))
      else truncate_items h newsize rest (tot + item_size obj) (d, t))"
  by (simp add: Let_def case_prod_beta split: sum.splits)

lemma trunc_list_Cons:
  "trunc_list newsize tot ((k, obj) # rest) =
     (if max (item_size obj - (tot + item_size obj) + newsize) 0 = 0 then
        trunc_list newsize (tot + item_size obj) rest
      else if max (item_size obj - (tot + item_size obj) + newsize) 0 < item_size obj then
        (k, \<lparr>item_data = take (nat (max (item_size obj - (tot + item_size obj) + newsize) 0))
                           (item_data obj),
             item_size = max (item_size obj - (tot + item_size obj) + newsize) 0\<rparr>)
          # trunc_list newsize (tot + item_size obj) rest
      else (k, obj) # trunc_list newsize (tot + item_size obj) rest)"
  by (simp add: Let_def)

declare truncate_items.simps(2) [simp del]
declare trunc_list.simps(2) [simp del]

lemma truncate_items_refines:
  assumes "block_partition h t = pre @ rest"
    and "sorted_wrt (<) (map fst (pre @ rest))"
    and "\<forall>kv\<in>set rest. (\<exists>n. fst kv = fmt010 n)
                       \<and> item_size (snd kv) = int (length (item_data (snd kv)))"
  shows "truncate_items h newsize rest tot (d, t) =
           Inr (d + data_sizes (trunc_list newsize tot rest) - data_sizes rest,
                set_block_partition h t (pre @ trunc_list newsize tot rest))"
  using assms
proof (induction rest arbitrary: pre tot d t)
  case Nil
  from Nil(1)[symmetric] show ?case by simp
next
  case (Cons a rest)
  obtain k obj where a: "a = (k, obj)" by (cases a)
  from Cons.prems(3) obtain n where kn: "k = fmt010 n"
    and sz: "item_size obj = int (length (item_data obj))"
    and restok: "\<forall>kv\<in>set rest. (\<exists>n. fst kv = fmt010 n)
                       \<and> item_size (snd kv) = int (length (item_data (snd kv)))"
    by (auto simp: a)
  have pi: "py_int k = Inr n" by (simp add: kn py_int_fmt010)
  from Cons.prems(2) have srt: "sorted_wrt (<) (map fst (pre @ (k, obj) # rest))" by (simp add: a)
  note keys = sorted_app_keys[OF srt]
  have part: "block_partition h t = pre @ (k, obj) # rest" using Cons.prems(1) by (simp add: a)
  have look: "map_of (block_partition h t) (fmt010 n) = Some obj"
    unfolding part kn[symmetric] using keys(1) by (rule map_of_at)
  have get: "block_get_bytes h t n = item_data obj" by (simp add: block_get_bytes_def look)
  let ?keep = "max (item_size obj - (tot + item_size obj) + newsize) 0"
  show ?case
  proof (cases "?keep = 0")
    case True
    let ?t1 = "set_block_partition h t (pre @ rest)"
    have del: "block_delete h t n = Inr (- item_size obj, ?t1)"
      using look part_delete_at[OF keys, of obj] by (simp add: block_delete_def part kn)
    have s1: "sorted_wrt (<) (map fst (pre @ rest))"
      using srt by (auto simp: sorted_wrt_append)
    have "truncate_items h newsize rest (tot + item_size obj) (d - item_size obj, ?t1) =
           Inr (d - item_size obj + data_sizes (trunc_list newsize (tot + item_size obj) rest)
                  - data_sizes rest,
                set_block_partition h ?t1 (pre @ trunc_list newsize (tot + item_size obj) rest))"
      using s1 restok by (intro Cons.IH) simp_all
    moreover have "truncate_items h newsize ((k, obj) # rest) tot (d, t) =
        truncate_items h newsize rest (tot + item_size obj) (d - item_size obj, ?t1)"
      by (subst truncate_items_Cons) (simp only: True, simp add: pi del)
    moreover have "trunc_list newsize tot ((k, obj) # rest) = trunc_list newsize (tot + item_size obj) rest"
      by (subst trunc_list_Cons) (simp only: True, simp)
    ultimately show ?thesis unfolding a using sz by simp
  next
    case False
    show ?thesis
    proof (cases "?keep < item_size obj")
      case True
      let ?new = "py_slice (item_data obj) 0 ?keep"
      have newtake: "?new = take (nat ?keep) (item_data obj)" by (simp add: py_slice_nonneg)
      have k0: "0 \<le> ?keep" by simp
      have "nat ?keep \<le> length (item_data obj)" using True sz by linarith
      then have "length ?new = nat ?keep" unfolding newtake by simp
      with k0 have lnew: "int (length ?new) = ?keep" by linarith
      let ?v = "\<lparr>item_data = take (nat ?keep) (item_data obj), item_size = ?keep\<rparr>"
      let ?t1 = "set_block_partition h t (pre @ (k, ?v) # rest)"
      have e1: "block_put_bytes h t n ?new =
                  (int (length ?new) - item_size obj,
                   set_block_partition h t
                     (part_put (fmt010 n) \<lparr>item_data = ?new, item_size = int (length ?new)\<rparr>
                        (block_partition h t)))"
        using look by (simp add: block_put_bytes_def Let_def)
      have e2: "part_put (fmt010 n) X (block_partition h t) = pre @ (k, X) # rest" for X
        unfolding part kn using keys(1)[unfolded kn] by (rule part_put_at)
      have put: "block_put_bytes h t n ?new = (?keep - item_size obj, ?t1)"
        unfolding e1 e2 lnew by (simp only: newtake)
      have s1: "sorted_wrt (<) (map fst ((pre @ [(k, ?v)]) @ rest))"
        using srt by (simp add: sorted_wrt_append)
      have "truncate_items h newsize rest (tot + item_size obj) (d + (?keep - item_size obj), ?t1) =
           Inr (d + (?keep - item_size obj) + data_sizes (trunc_list newsize (tot + item_size obj) rest)
                  - data_sizes rest,
                set_block_partition h ?t1
                  ((pre @ [(k, ?v)]) @ trunc_list newsize (tot + item_size obj) rest))"
        using s1 restok by (intro Cons.IH) simp_all
      moreover have "truncate_items h newsize ((k, obj) # rest) tot (d, t) =
          truncate_items h newsize rest (tot + item_size obj) (d + (?keep - item_size obj), ?t1)"
        by (subst truncate_items_Cons)
           (simp only: True False if_True if_False pi get put sum.case fst_conv snd_conv)
      moreover have "trunc_list newsize tot ((k, obj) # rest) =
          (k, ?v) # trunc_list newsize (tot + item_size obj) rest"
        by (subst trunc_list_Cons) (simp only: True False if_True if_False)
      moreover have "int (length (take (nat ?keep) (item_data obj))) = ?keep"
        using lnew by (simp only: newtake)
      ultimately show ?thesis unfolding a using sz by simp
    next
      case F2: False
      have s1: "sorted_wrt (<) (map fst ((pre @ [(k, obj)]) @ rest))"
        using srt by simp
      have "truncate_items h newsize rest (tot + item_size obj) (d, t) =
           Inr (d + data_sizes (trunc_list newsize (tot + item_size obj) rest) - data_sizes rest,
                set_block_partition h t
                  ((pre @ [(k, obj)]) @ trunc_list newsize (tot + item_size obj) rest))"
        using s1 restok part by (intro Cons.IH) simp_all
      moreover have "truncate_items h newsize ((k, obj) # rest) tot (d, t) =
          truncate_items h newsize rest (tot + item_size obj) (d, t)"
        by (subst truncate_items_Cons) (simp only: False F2 if_False)
      moreover have "trunc_list newsize tot ((k, obj) # rest) =
          (k, obj) # trunc_list newsize (tot + item_size obj) rest"
        by (subst trunc_list_Cons) (simp only: False F2 if_False)
      ultimately show ?thesis unfolding a by simp
    qed
  qed
qed

lemma trunc_list_content:
  assumes "\<forall>kv\<in>set xs. item_size (snd kv) = int (length (item_data (snd kv)))"
  shows "concat (map (\<lambda>kv. item_data (snd kv)) (trunc_list newsize tot xs))
         = take (nat (newsize - tot)) (concat (map (\<lambda>kv. item_data (snd kv)) xs))"
  using assms
proof (induction xs arbitrary: tot)
  case Nil
  show ?case by simp
next
  case (Cons a xs)
  obtain k obj where a: "a = (k, obj)" by (cases a)
  from Cons.prems have sz: "item_size obj = int (length (item_data obj))"
    and rest: "\<forall>kv\<in>set xs. item_size (snd kv) = int (length (item_data (snd kv)))"
    by (auto simp: a)
  let ?keep = "max (item_size obj - (tot + item_size obj) + newsize) 0"
  have keep: "?keep = max (newsize - tot) 0" by simp
  note IH = Cons.IH[OF rest, of "tot + item_size obj"]
  show ?case
  proof (cases "?keep = 0")
    case True
    then have le: "newsize - tot \<le> 0" by simp
    have tl: "trunc_list newsize tot ((k, obj) # xs) = trunc_list newsize (tot + item_size obj) xs"
      by (subst trunc_list_Cons) (simp only: True, simp)
    have "nat (newsize - (tot + item_size obj)) = 0" using le sz by simp
    with IH le show ?thesis unfolding a tl by simp
  next
    case False
    then have pos: "0 < newsize - tot" by simp
    show ?thesis
    proof (cases "?keep < item_size obj")
      case True
      then have lt: "newsize - tot < int (length (item_data obj))" using sz pos by simp
      have tl: "trunc_list newsize tot ((k, obj) # xs) =
          (k, \<lparr>item_data = take (nat ?keep) (item_data obj), item_size = ?keep\<rparr>)
            # trunc_list newsize (tot + item_size obj) xs"
        by (subst trunc_list_Cons) (simp only: True False if_True if_False)
      have z: "nat (newsize - (tot + item_size obj)) = 0" using lt sz by simp
      have k: "nat ?keep = nat (newsize - tot)" using pos by simp
      have "nat (newsize - tot) \<le> length (item_data obj)" using lt by simp
      then show ?thesis unfolding a tl using IH z k by simp
    next
      case F2: False
      then have ge: "int (length (item_data obj)) \<le> newsize - tot" using sz pos by simp
      have tl: "trunc_list newsize tot ((k, obj) # xs) =
          (k, obj) # trunc_list newsize (tot + item_size obj) xs"
        by (subst trunc_list_Cons) (simp only: False F2 if_False)
      have "nat (newsize - tot) - length (item_data obj) = nat (newsize - (tot + item_size obj))"
        using ge sz by linarith
      moreover have "length (item_data obj) \<le> nat (newsize - tot)" using ge by linarith
      ultimately show ?thesis unfolding a tl using IH by simp
    qed
  qed
qed

lemma trunc_list_noop:
  assumes "\<forall>kv\<in>set xs. item_size (snd kv) = int (length (item_data (snd kv)))
                        \<and> 1 \<le> int (length (item_data (snd kv)))"
    and "data_sizes xs \<le> newsize - tot"
  shows "trunc_list newsize tot xs = xs"
  using assms
proof (induction xs arbitrary: tot)
  case Nil
  show ?case by simp
next
  case (Cons a xs)
  obtain k obj where a: "a = (k, obj)" by (cases a)
  from Cons.prems(1) have sz: "item_size obj = int (length (item_data obj))"
    and l1: "1 \<le> int (length (item_data obj))"
    and rest: "\<forall>kv\<in>set xs. item_size (snd kv) = int (length (item_data (snd kv)))
                        \<and> 1 \<le> int (length (item_data (snd kv)))"
    by (auto simp: a)
  have nonneg: "0 \<le> data_sizes xs" by (induction xs) auto
  from Cons.prems(2) have b: "int (length (item_data obj)) + data_sizes xs \<le> newsize - tot"
    by (simp add: a)
  let ?keep = "max (item_size obj - (tot + item_size obj) + newsize) 0"
  have n0: "\<not> ?keep = 0" using b l1 nonneg by simp
  have nl: "\<not> ?keep < item_size obj" using b nonneg sz by simp
  have tl: "trunc_list newsize tot ((k, obj) # xs) =
          (k, obj) # trunc_list newsize (tot + item_size obj) xs"
    by (subst trunc_list_Cons) (simp only: n0 nl if_False)
  have "data_sizes xs \<le> newsize - (tot + item_size obj)" using b sz by simp
  from Cons.IH[OF rest this] show ?case unfolding a tl by simp
qed

lemma trunc_list_items:
  assumes "kv \<in> set (trunc_list newsize tot xs)"
  shows "\<exists>obj. (fst kv, obj) \<in> set xs
           \<and> (snd kv = obj
              \<or> (\<exists>keep. 0 < keep \<and> keep < item_size obj
                    \<and> snd kv = \<lparr>item_data = take (nat keep) (item_data obj), item_size = keep\<rparr>))"
  using assms
proof (induction xs arbitrary: tot)
  case Nil
  then show ?case by simp
next
  case (Cons a xs)
  obtain k obj where a: "a = (k, obj)" by (cases a)
  let ?keep = "max (item_size obj - (tot + item_size obj) + newsize) 0"
  let ?v = "\<lparr>item_data = take (nat ?keep) (item_data obj), item_size = ?keep\<rparr>"
  from Cons.prems consider
      (tail) "kv \<in> set (trunc_list newsize (tot + item_size obj) xs)"
    | (cut) "kv = (k, ?v)" "?keep \<noteq> 0" "?keep < item_size obj"
    | (same) "kv = (k, obj)"
    unfolding a by (subst (asm) trunc_list_Cons) (auto split: if_splits)
  then show ?case
  proof cases
    case tail
    from Cons.IH[OF this] show ?thesis by auto
  next
    case cut
    then have "0 < ?keep" by simp
    with cut show ?thesis unfolding a by (intro exI[of _ obj]) auto
  next
    case same
    then show ?thesis unfolding a by auto
  qed
qed

lemma trunc_list_sorted:
  "sorted_wrt (<) (map fst xs) \<Longrightarrow> sorted_wrt (<) (map fst (trunc_list newsize tot xs))"
proof (induction xs arbitrary: tot)
  case Nil
  show ?case by simp
next
  case (Cons a xs)
  obtain k obj where a: "a = (k, obj)" by (cases a)
  from Cons.prems have s: "sorted_wrt (<) (map fst xs)" and l: "\<forall>x\<in>set xs. k < fst x"
    by (auto simp: a)
  have l': "\<forall>x\<in>set (trunc_list newsize tot' xs). k < fst x" for tot'
    using trunc_list_items l by fastforce
  show ?case unfolding a
    by (subst trunc_list_Cons) (use Cons.IH[OF s] l' in auto)
qed

lemma stored_bytes_set_partition [simp]:
  "stored_bytes h (set_block_partition h t p) = data_sizes p"
  by (simp add: stored_bytes_def)

lemma xTruncate_eq:
  assumes "wf_store h t"
  shows "xTruncate h t newsize =
     (case update_total_size h
            (set_block_partition h t (trunc_list newsize 0 (block_partition h t)))
            (data_sizes (trunc_list newsize 0 (block_partition h t)) - stored_bytes h t) of
        Inl e \<Rightarrow> (Some e, set_block_partition h t (trunc_list newsize 0 (block_partition h t)))
      | Inr t3 \<Rightarrow> (None, t3))"
proof -
  have ok: "\<forall>kv\<in>set (block_partition h t). (\<exists>n. fst kv = fmt010 n)
                       \<and> item_size (snd kv) = int (length (item_data (snd kv)))"
    using assms unfolding wf_store_def list_all_iff by blast
  have "truncate_items h newsize (block_partition h t) 0 (0, t) =
           Inr (0 + data_sizes (trunc_list newsize 0 (block_partition h t))
                  - data_sizes (block_partition h t),
                set_block_partition h t ([] @ trunc_list newsize 0 (block_partition h t)))"
    using wf_store_sorted[OF assms] ok by (intro truncate_items_refines) simp_all
  then show ?thesis by (simp add: xTruncate_def stored_bytes_def)
qed

lemma wf_store_trunc:
  assumes "wf_store h t"
  shows "wf_store h (set_block_partition h t (trunc_list newsize tot (block_partition h t)))"
proof -
  let ?P = "block_partition h t"
  have s: "sorted_wrt (<) (map fst (trunc_list newsize tot ?P))"
    using wf_store_sorted[OF assms] by (rule trunc_list_sorted)
  have "(\<exists>n\<ge>0. fst kv = fmt010 n)
          \<and> item_size (snd kv) = int (length (item_data (snd kv)))
          \<and> 1 \<le> int (length (item_data (snd kv)))
          \<and> int (length (item_data (snd kv))) \<le> block_size h"
    if m: "kv \<in> set (trunc_list newsize tot ?P)" for kv
  proof -
    from trunc_list_items[OF m] obtain obj where o: "(fst kv, obj) \<in> set ?P"
      and c: "snd kv = obj
              \<or> (\<exists>keep. 0 < keep \<and> keep < item_size obj
                    \<and> snd kv = \<lparr>item_data = take (nat keep) (item_data obj), item_size = keep\<rparr>)"
      by blast
    note d = wf_storeD[OF assms o]
    from c show ?thesis
    proof
      assume "snd kv = obj"
      with d show ?thesis by simp
    next
      assume "\<exists>keep. 0 < keep \<and> keep < item_size obj
                    \<and> snd kv = \<lparr>item_data = take (nat keep) (item_data obj), item_size = keep\<rparr>"
      then obtain keep where k: "0 < keep" "keep < item_size obj"
        and v: "snd kv = \<lparr>item_data = take (nat keep) (item_data obj), item_size = keep\<rparr>"
        by blast
      have "int (length (take (nat keep) (item_data obj))) = keep" using k d(2) by simp
      with d k v show ?thesis by simp
    qed
  qed
  then have "list_all (\<lambda>kv. (\<exists>n\<ge>0. fst kv = fmt010 n)
                    \<and> item_size (snd kv) = int (length (item_data (snd kv)))
                    \<and> 1 \<le> int (length (item_data (snd kv)))
                    \<and> int (length (item_data (snd kv))) \<le> block_size h)
          (trunc_list newsize tot ?P)"
    unfolding list_all_iff by blast
  with s show ?thesis by (simp add: wf_store_def)
qed

lemma file_content_eq:
  "file_content h t = concat (map (\<lambda>kv. item_data (snd kv)) (block_partition h t))"
  by (simp add: file_content_def serialize_iter_def block_partition_def)

lemma length_file_content: "int (length (file_content h t)) = stored_bytes h t"
  unfolding file_content_eq stored_bytes_def by (induction "block_partition h t") (simp_all add: int_length_concat)

lemma xTruncate_result:
  assumes "wf_store h t"
  shows "\<exists>e t'. xTruncate h t newsize = (e, t')
           \<and> (e = None \<or> e = Some ValidationException)
           \<and> wf_store h t'
           \<and> block_partition h t' = trunc_list newsize 0 (block_partition h t)
           \<and> (trunc_list newsize 0 (block_partition h t) = block_partition h t
                \<longrightarrow> get_total_size h t' = get_total_size h t)"
proof -
  let ?p = "trunc_list newsize 0 (block_partition h t)"
  let ?t2 = "set_block_partition h t ?p"
  let ?d = "data_sizes ?p - stored_bytes h t"
  let ?r = "case update_total_size h ?t2 ?d of Inl e \<Rightarrow> (Some e, ?t2) | Inr t3 \<Rightarrow> (None, t3)"
  have x: "xTruncate h t newsize = ?r" using assms by (rule xTruncate_eq)
  have e: "fst ?r = None \<or> fst ?r = Some ValidationException"
    and b: "block_items (snd ?r) = block_items ?t2"
    and g: "?d = 0 \<Longrightarrow> get_total_size h (snd ?r) = get_total_size h ?t2"
    by (rule update_total_outcome[OF refl])+
  have wf: "wf_store h (snd ?r)"
    using wf_store_trunc[OF assms] by (simp only: same_blocks(5)[OF b])
  have p: "block_partition h (snd ?r) = ?p"
    by (simp add: same_blocks(1)[OF b])
  have n: "get_total_size h (snd ?r) = get_total_size h t" if "?p = block_partition h t"
  proof -
    from that have "?d = 0" by (simp add: stored_bytes_def)
    from g[OF this] show ?thesis by simp
  qed
  from x e wf p n show ?thesis
    by (intro exI[of _ "fst ?r"] exI[of _ "snd ?r"]) simp
qed

text \<open>
  C6: on a well-formed store and for \<open>newsize \<ge> 0\<close>, no request of the loop of
  \<open>xTruncate(newsize)\<close> raises (the call can end in an exception only at its last
  request, the update of the size counter), and the call leaves as file content the
  first \<open>min(newsize, current size)\<close> bytes of the content before, in the order of the
  blocks: the list of items becomes \<open>trunc_list\<close> of the old one (items wholly beyond
  \<open>newsize\<close> deleted, the item across it cut to its first \<open>to_keep\<close> bytes, earlier items
  untouched). When \<open>newsize\<close> is at least the current size, no block and no size counter
  changes.
\<close>

theorem xTruncate_content:
  assumes "wf_store h t" and "0 \<le> newsize"
  shows "\<exists>e t'. xTruncate h t newsize = (e, t')
           \<and> (e = None \<or> e = Some ValidationException)
           \<and> file_content h t' = take (nat newsize) (file_content h t)
           \<and> int (length (file_content h t')) = min newsize (stored_bytes h t)
           \<and> block_partition h t' = trunc_list newsize 0 (block_partition h t)
           \<and> (stored_bytes h t \<le> newsize \<longrightarrow>
                block_partition h t' = block_partition h t
                \<and> get_total_size h t' = get_total_size h t)"
proof -
  from xTruncate_result[OF assms(1), of newsize] obtain e t' where
    x: "xTruncate h t newsize = (e, t')"
    and ev: "e = None \<or> e = Some ValidationException"
    and p: "block_partition h t' = trunc_list newsize 0 (block_partition h t)"
    and g: "trunc_list newsize 0 (block_partition h t) = block_partition h t
              \<longrightarrow> get_total_size h t' = get_total_size h t"
    by blast
  have ok: "\<forall>kv\<in>set (block_partition h t).
               item_size (snd kv) = int (length (item_data (snd kv)))
               \<and> 1 \<le> int (length (item_data (snd kv)))"
    using assms(1) unfolding wf_store_def list_all_iff by blast
  then have ok1: "\<forall>kv\<in>set (block_partition h t).
               item_size (snd kv) = int (length (item_data (snd kv)))" by blast
  have c: "file_content h t' = take (nat newsize) (file_content h t)"
    unfolding file_content_eq p using trunc_list_content[OF ok1, of newsize 0] by simp
  have l: "int (length (file_content h t')) = min newsize (stored_bytes h t)"
  proof -
    have "int (length (take (nat newsize) (file_content h t)))
          = min newsize (int (length (file_content h t)))"
      using assms(2) by (simp add: min_def) linarith
    then show ?thesis unfolding c by (simp only: length_file_content)
  qed
  have n: "block_partition h t' = block_partition h t \<and> get_total_size h t' = get_total_size h t"
    if "stored_bytes h t \<le> newsize"
  proof -
    have "data_sizes (block_partition h t) \<le> newsize - 0" using that by (simp add: stored_bytes_def)
    from trunc_list_noop[OF ok this] have e: "trunc_list newsize 0 (block_partition h t) = block_partition h t" by simp
    with g p show ?thesis by simp
  qed
  from x ev c l p n show ?thesis by blast
qed

subsection \<open>Concrete runs\<close>

lemma py_int_keys: "py_int ''0000000000'' = Inr 0" "py_int ''0000000001'' = Inr 1"
  using py_int_fmt010[of 0] py_int_fmt010[of 1] by (simp_all add: fmt010_0 fmt010_1)

lemma canonical_keys: "\<exists>n\<ge>0. ''0000000000'' = fmt010 n" "\<exists>n\<ge>0. ''0000000001'' = fmt010 n"
  using fmt010_0 fmt010_1 by (metis order_refl, metis zero_le_one)

lemma wf_example_table: "wf_store example_handle example_table"
  using canonical_keys
  by (simp add: wf_store_def block_partition_def example_table_def example_handle_def)

lemma wf_empty_table: "wf_store h empty_table"
  by (simp add: wf_store_def block_partition_def empty_table_def)

lemma example_xTruncate:
  "xTruncate example_handle example_table 3 =
     (Some ValidationException, \<lparr>block_items = (\<lambda>_. [])(''db'' :=
           [(''0000000000'', \<lparr>item_data = [1, 2, 3], item_size = 3\<rparr>)]),
      fsize_items = [''db'' \<mapsto> 6], lock_items = Map.empty\<rparr>)"
  apply (simp add: xTruncate_def block_partition_def example_table_def example_handle_simps)
  apply (simp add: truncate_items_Cons py_int_keys block_get_bytes_def block_put_bytes_def
        block_delete_def part_delete_def block_partition_def set_block_partition_def
        example_handle_simps fmt010_0 fmt010_1 py_slice_def py_index_def Let_def
        update_total_size_def reserved_word_def)
  done

theorem xTruncate_content_witness:
  "wf_store example_handle example_table \<and> (0::int) \<le> 3
   \<and> xTruncate example_handle example_table 3 =
     (Some ValidationException, \<lparr>block_items = (\<lambda>_. [])(''db'' :=
           [(''0000000000'', \<lparr>item_data = [1, 2, 3], item_size = 3\<rparr>)]),
      fsize_items = [''db'' \<mapsto> 6], lock_items = Map.empty\<rparr>)
   \<and> file_content example_handle \<lparr>block_items = (\<lambda>_. [])(''db'' :=
           [(''0000000000'', \<lparr>item_data = [1, 2, 3], item_size = 3\<rparr>)]),
      fsize_items = [''db'' \<mapsto> 6], lock_items = Map.empty\<rparr>
     = take (nat 3) (file_content example_handle example_table)"
  using xTruncate_content [of example_handle example_table 3] wf_example_table example_xTruncate
  by simp

lemma example_xWrite:
  "xWrite example_handle empty_table [1, 2, 3, 4, 5, 6] 2 =
     Some (Some ValidationException, \<lparr>block_items = (\<lambda>_. [])(''db'' :=
           [(''0000000000'', \<lparr>item_data = [0, 0, 1, 2], item_size = 4\<rparr>),
            (''0000000001'', \<lparr>item_data = [3, 4, 5, 6], item_size = 4\<rparr>)]),
      fsize_items = Map.empty, lock_items = Map.empty\<rparr>)"
  apply (simp add: xWrite_def pad_lock_page_def lock_page_offset_def example_handle_simps blocks.simps)
  apply (simp add: data_to_write_def block_get_bytes_def block_put_bytes_def
        block_partition_def set_block_partition_def example_handle_simps fmt010_0 fmt010_1
        py_slice_def py_slice_from_def py_index_def Let_def update_total_size_def empty_table_def
        reserved_word_def numeral_eq_Suc[of "Num.Bit0 Num.One"])
  done

section \<open>The size counter after a write and after a truncation\<close>

text \<open>
  C1: the size counter does not follow the blocks. Every update expression of the lock
  manager names its attributes through placeholders; \<open>_update_total_size\<close> names the
  reserved word \<open>size\<close> itself, so its request is rejected, after the blocks have been
  written or deleted. Starting from stores whose counter equals the sum of the lengths of
  the block data (the empty store, and the store of two blocks with six bytes),
  \<open>xWrite\<close> of six bytes at offset 2 ends in a \<open>ValidationException\<close> with eight bytes
  stored and a counter of 0, and \<open>xTruncate(3)\<close> ends in one with three bytes stored and
  a counter of 6.
\<close>

theorem size_counter_not_updated:
  "get_total_size example_handle empty_table = stored_bytes example_handle empty_table
   \<and> fst (the (xWrite example_handle empty_table [1, 2, 3, 4, 5, 6] 2))
       = Some ValidationException
   \<and> stored_bytes example_handle
       (snd (the (xWrite example_handle empty_table [1, 2, 3, 4, 5, 6] 2))) = 8
   \<and> get_total_size example_handle
       (snd (the (xWrite example_handle empty_table [1, 2, 3, 4, 5, 6] 2))) = 0
   \<and> get_total_size example_handle example_table = stored_bytes example_handle example_table
   \<and> fst (xTruncate example_handle example_table 3) = Some ValidationException
   \<and> stored_bytes example_handle (snd (xTruncate example_handle example_table 3)) = 3
   \<and> get_total_size example_handle (snd (xTruncate example_handle example_table 3)) = 6"
  apply (simp add: example_xWrite example_xTruncate)
  apply (simp add: get_total_size_def stored_bytes_def block_partition_def
        example_handle_simps empty_table_def example_table_def)
  done

end
